theory Spec2Isabelle
  imports Main "HOL-Library.Word" "HOL-Library.Sublist"
begin

section \<open>Simulated realtime transcript playback of CallDetailModal\<close>

text \<open>
  The model follows the component \<open>CallDetailModal\<close>: its six state variables, its
  \<open>call\<close> prop, the two effects that bind a call and drive the live demo, and the
  timers those effects leave with the browser. Strings are sequences of UTF-16 code
  units, which is what \<open>length\<close> and \<open>slice\<close> count in the source.
\<close>

subsection \<open>Strings and arrays\<close>

type_synonym jsstring = "16 word list"

text \<open>An ASCII literal, as its code units.\<close>

definition js :: "string \<Rightarrow> jsstring" where
  "js s = map of_char s"

text \<open>
  \<open>Array.prototype.slice\<close> and \<open>String.prototype.slice\<close>: a negative index counts
  from the end, both indices are clamped to the length, an absent end is the length.
\<close>

definition slice :: "'a list \<Rightarrow> int \<Rightarrow> int option \<Rightarrow> 'a list" where
  "slice xs start fin =
     (let len = int (length xs);
          k = (if start < 0 then max (len + start) 0 else min start len);
          final = (case fin of
                     None \<Rightarrow> len
                   | Some e \<Rightarrow> if e < 0 then max (len + e) 0 else min e len)
      in take (nat (final - k)) (drop (nat k) xs))"

text \<open>Reading \<open>xs[i]\<close>: out of range the value is \<open>undefined\<close>, here \<open>None\<close>.\<close>

definition at_index :: "'a list \<Rightarrow> nat \<Rightarrow> 'a option" where
  "at_index xs i = (if i < length xs then Some (xs ! i) else None)"

text \<open>
  The decimal digits of an integer, as the template literal renders the number that
  \<open>Date.now()\<close> returns: a count of milliseconds, far below the size at which a number
  is rendered with an exponent.
\<close>

definition digitChar :: "nat \<Rightarrow> 16 word" where
  "digitChar d = of_nat (48 + d)"

fun digits :: "nat \<Rightarrow> jsstring" where
  "digits n = (if n < 10 then [digitChar n] else digits (n div 10) @ [digitChar (n mod 10)])"

declare digits.simps [simp del]

definition numberToString :: "int \<Rightarrow> jsstring" where
  "numberToString n = (if n < 0 then js ''-'' @ digits (nat (- n)) else digits (nat n))"

subsection \<open>Call records and messages\<close>

text \<open>
  Modelled from the spec: the declarations of \<open>CallMessage\<close>, \<open>CallRecord\<close> and
  \<open>CallStatus\<close> in the module \<open>types\<close>, which is not among the source files. A message
  has the four fields of the continuation's entries, with the roles \<open>customer\<close> and
  \<open>ai\<close> the component compares against; a call has one of the three statuses the
  component switches on.
\<close>

datatype Role = customer | ai

datatype CallStatus = completed | missed | in_progress

record CallMessage =
  id_msg :: jsstring
  role :: Role
  content :: jsstring
  timestamp :: jsstring

text \<open>
  Of a call record the playback reads \<open>status\<close> and \<open>transcript\<close>. The dependency list
  of the live effect compares \<open>call.transcript\<close> by object identity, so the record also
  carries the identity of its transcript array.
\<close>

record CallRecord =
  status :: CallStatus
  transcript :: "CallMessage list"
  transcriptRef :: nat

definition simulatedContinuation :: "CallMessage list" where
  "simulatedContinuation = [
    \<lparr>id_msg = js ''sim1'', role = customer,
     content = [
        0x6211, 0x60F3, 0x70B9, 0x4E00, 0x4EFD, 0x5BAB, 0x4FDD, 0x9E21, 0x4E01],
     timestamp = []\<rparr>,
    \<lparr>id_msg = js ''sim2'', role = ai,
     content = [
        0x597D, 0x7684, 0xFF0C, 0x5BAB, 0x4FDD, 0x9E21, 0x4E01, 0x4E00, 0x4EFD, 0x20, 0x24,
        0x31, 0x35, 0x2E, 0x39, 0x39, 0x3002, 0x8BF7, 0x95EE, 0x8FD8, 0x9700, 0x8981, 0x522B,
        0x7684, 0x5417, 0xFF1F],
     timestamp = []\<rparr>,
    \<lparr>id_msg = js ''sim3'', role = customer,
     content = [
        0x518D, 0x6765, 0x4E00, 0x4EFD, 0x7092, 0x996D, 0xFF0C, 0x5C11, 0x653E, 0x76D0],
     timestamp = []\<rparr>,
    \<lparr>id_msg = js ''sim4'', role = ai,
     content = [
        0x6536, 0x5230, 0xFF0C, 0x7092, 0x996D, 0x20, 0x24, 0x31, 0x32, 0x2E, 0x39, 0x39,
        0xFF0C, 0x5DF2, 0x5907, 0x6CE8, 0x5C11, 0x653E, 0x76D0, 0x3002, 0x8981, 0x4E0D, 0x8981,
        0x518D, 0x6765, 0x70B9, 0x996E, 0x6599, 0x6216, 0x8005, 0x5C0F, 0x5403, 0xFF1F, 0x6211,
        0x4EEC, 0x7684, 0x67E0, 0x6AAC, 0x8336, 0x548C, 0x6625, 0x5377, 0x90FD, 0x633A, 0x53D7,
        0x6B22, 0x8FCE, 0x7684, 0x3002],
     timestamp = []\<rparr>,
    \<lparr>id_msg = js ''sim5'', role = customer,
     content = [
        0x90A3, 0x6765, 0x4E00, 0x676F, 0x67E0, 0x6AAC, 0x8336, 0x5427],
     timestamp = []\<rparr>,
    \<lparr>id_msg = js ''sim6'', role = ai,
     content = [
        0x597D, 0x7684, 0xFF0C, 0x67E0, 0x6AAC, 0x8336, 0x20, 0x24, 0x33, 0x2E, 0x39, 0x39,
        0x3002, 0x60A8, 0x7684, 0x8BA2, 0x5355, 0xFF1A, 0x5BAB, 0x4FDD, 0x9E21, 0x4E01, 0x3001,
        0x7092, 0x996D, 0x5C11, 0x76D0, 0x3001, 0x67E0, 0x6AAC, 0x8336, 0xFF0C, 0x5C0F, 0x8BA1,
        0x20, 0x24, 0x33, 0x32, 0x2E, 0x39, 0x37, 0x3002, 0x8BF7, 0x95EE, 0x5916, 0x5356,
        0x8FD8, 0x662F, 0x81EA, 0x53D6, 0xFF1F],
     timestamp = []\<rparr>,
    \<lparr>id_msg = js ''sim7'', role = customer,
     content = [
        0x5916, 0x5356, 0xFF0C, 0x9001, 0x5230, 0x20, 0x31, 0x32, 0x33, 0x20, 0x4D, 0x61, 0x69,
        0x6E, 0x20, 0x53, 0x74, 0x72, 0x65, 0x65, 0x74],
     timestamp = []\<rparr>,
    \<lparr>id_msg = js ''sim8'', role = ai,
     content = [
        0x597D, 0x7684, 0xFF0C, 0x914D, 0x9001, 0x5230, 0x20, 0x31, 0x32, 0x33, 0x20, 0x4D,
        0x61, 0x69, 0x6E, 0x20, 0x53, 0x74, 0x72, 0x65, 0x65, 0x74, 0x3002, 0x52A0, 0x4E0A,
        0x914D, 0x9001, 0x8D39, 0x548C, 0x7A0E, 0xFF0C, 0x603B, 0x8BA1, 0x20, 0x24, 0x34, 0x32,
        0x2E, 0x35, 0x35, 0x3002, 0x652F, 0x4ED8, 0x65B9, 0x9762, 0xFF0C, 0x60A8, 0x53EF,
        0x4EE5, 0x7528, 0x4E0A, 0x6B21, 0x7ED1, 0x5B9A, 0x7684, 0x5C3E, 0x53F7, 0x20, 0x34,
        0x35, 0x36, 0x37, 0x20, 0x7684, 0x5361, 0x76F4, 0x63A5, 0x4ED8, 0x6B3E, 0xFF0C, 0x6216,
        0x8005, 0x7ED1, 0x5B9A, 0x4E00, 0x5F20, 0x65B0, 0x5361, 0xFF0C, 0x60A8, 0x9009, 0x54EA,
        0x4E2A, 0xFF1F],
     timestamp = []\<rparr>,
    \<lparr>id_msg = js ''sim9'', role = customer,
     content = [
        0x7ED1, 0x5B9A, 0x65B0, 0x5361, 0x5427],
     timestamp = []\<rparr>,
    \<lparr>id_msg = js ''sim10'', role = ai,
     content = [
        0x6CA1, 0x95EE, 0x9898, 0x3002, 0x6211, 0x73B0, 0x5728, 0x7ED9, 0x60A8, 0x53D1, 0x4E00,
        0x6761, 0x77ED, 0x4FE1, 0xFF0C, 0x91CC, 0x9762, 0x6709, 0x4E2A, 0x94FE, 0x63A5, 0xFF0C,
        0x70B9, 0x8FDB, 0x53BB, 0x5C31, 0x53EF, 0x4EE5, 0x7ED1, 0x5B9A, 0x65B0, 0x5361, 0x4E86,
        0x3002, 0x7ED1, 0x5B9A, 0x6210, 0x529F, 0x540E, 0xFF0C, 0x4E0B, 0x6B21, 0x60A8, 0x62A5,
        0x5C3E, 0x53F7, 0x5C31, 0x80FD, 0x76F4, 0x63A5, 0x4ED8, 0x6B3E, 0xFF0C, 0x4E0D, 0x7528,
        0x518D, 0x8D70, 0x4E00, 0x904D, 0x8FD9, 0x4E2A, 0x6D41, 0x7A0B, 0x3002],
     timestamp = []\<rparr>,
    \<lparr>id_msg = js ''sim11'', role = customer,
     content = [
        0x597D, 0x7684, 0xFF0C, 0x6211, 0x770B, 0x5230, 0x77ED, 0x4FE1, 0x4E86],
     timestamp = []\<rparr>,
    \<lparr>id_msg = js ''sim12'', role = ai,
     content = [
        0x6536, 0x5230, 0x60A8, 0x7684, 0x65B0, 0x5361, 0x7ED1, 0x5B9A, 0x6210, 0x529F, 0xFF0C,
        0x5C3E, 0x53F7, 0x20, 0x38, 0x38, 0x39, 0x39, 0x3002, 0x5DF2, 0x5B8C, 0x6210, 0x6263,
        0x6B3E, 0x20, 0x24, 0x34, 0x32, 0x2E, 0x35, 0x35, 0xFF0C, 0x8BA2, 0x5355, 0x5DF2,
        0x751F, 0x6210, 0x3002, 0x9884, 0x8BA1, 0x20, 0x33, 0x30, 0x2D, 0x34, 0x30, 0x20,
        0x5206, 0x949F, 0x9001, 0x8FBE, 0xFF0C, 0x795D, 0x60A8, 0x7528, 0x9910, 0x6109, 0x5FEB,
        0xFF01],
     timestamp = []\<rparr>]"

subsection \<open>The component: state, pending timers, effects\<close>

text \<open>
  A pending \<open>setTimeout\<close> of the live effect: the loop reset, which captured
  \<open>call.transcript\<close>, or the pause before typing, which captured \<open>currentMessage\<close>.
  A running \<open>setInterval\<close> holds the message it types and its local \<open>charIndex\<close>.
\<close>

datatype Timeout = Cooldown "CallMessage list" | Pause CallMessage

record TypeTimer =
  currentMessage :: CallMessage
  charIndex :: nat

definition typingSpeed :: "Role \<Rightarrow> nat" where
  "typingSpeed r = (if r = ai then 30 else 50)"

definition pauseBeforeTyping :: "Role \<Rightarrow> nat" where
  "pauseBeforeTyping r = (if r = customer then 1500 else 800)"

fun delay :: "Timeout \<Rightarrow> nat" where
  "delay (Cooldown tr) = 3000"
| "delay (Pause m) = pauseBeforeTyping (role m)"

definition period :: "TypeTimer \<Rightarrow> nat" where
  "period t = typingSpeed (role (currentMessage t))"

text \<open>
  \<open>liveDeps\<close> is the dependency list the live effect last ran with; \<open>pending\<close> is the
  timeout that run scheduled and that its cleanup clears, if it has not fired;
  \<open>typeTimers\<close> are the intervals still running, in the order they were started.
\<close>

record Modal =
  call :: CallRecord
  displayedMessages :: "CallMessage list"
  currentTypingText :: jsstring
  isTyping :: bool
  typingRole :: Role
  messageIndex :: nat
  isLiveDemo :: bool
  liveDeps :: "(bool \<times> nat \<times> nat) option"
  pending :: "Timeout option"
  typeTimers :: "TypeTimer list"

definition initial :: "CallRecord \<Rightarrow> Modal" where
  "initial c = \<lparr>call = c, displayedMessages = [], currentTypingText = [], isTyping = False,
     typingRole = ai, messageIndex = 0, isLiveDemo = False, liveDeps = None,
     pending = None, typeTimers = []\<rparr>"

text \<open>The first effect, run when \<open>call\<close> changes.\<close>

definition initEffect :: "Modal \<Rightarrow> Modal" where
  "initEffect s =
     (if status (call s) = in_progress
      then s\<lparr>isLiveDemo := True,
             displayedMessages := slice (transcript (call s)) 0 (Some (- 1)),
             messageIndex := 0\<rparr>
      else s\<lparr>displayedMessages := transcript (call s), isLiveDemo := False\<rparr>)"

text \<open>
  The body of the live effect, as the timeout it schedules. Reading \<open>role\<close> of an
  undefined \<open>currentMessage\<close> is a \<open>TypeError\<close>.
\<close>

datatype error = TypeError

text \<open>
  The functions below take the continuation as the parameter \<open>sc\<close>; in the component it
  is the constant \<open>simulatedContinuation\<close>.
\<close>

definition allMessages :: "CallMessage list \<Rightarrow> CallMessage list \<Rightarrow> CallMessage list" where
  "allMessages sc tr = slice tr (- 1) None @ sc"

definition liveBody ::
  "CallMessage list \<Rightarrow> bool \<Rightarrow> nat \<Rightarrow> CallMessage list \<Rightarrow> error + Timeout option" where
  "liveBody sc live idx tr =
     (if \<not> live then Inr None
      else if idx \<ge> length (allMessages sc tr) then Inr (Some (Cooldown tr))
      else (case at_index (allMessages sc tr) idx of
              None \<Rightarrow> Inl TypeError
            | Some m \<Rightarrow> Inr (Some (Pause m))))"

text \<open>
  After a render the live effect runs again when one of \<open>isLiveDemo\<close>, \<open>messageIndex\<close>,
  \<open>call.transcript\<close> differs from the last run: its cleanup clears the timeout of the
  last run, then the body schedules the next one. Intervals are not touched: the
  function the pause callback returns is dropped by \<open>setTimeout\<close>.
\<close>

definition deps :: "Modal \<Rightarrow> bool \<times> nat \<times> nat" where
  "deps s = (isLiveDemo s, messageIndex s, transcriptRef (call s))"

definition flushLive :: "CallMessage list \<Rightarrow> Modal \<Rightarrow> error + Modal" where
  "flushLive sc s =
     (if liveDeps s = Some (deps s) then Inr s
      else (case liveBody sc (isLiveDemo s) (messageIndex s) (transcript (call s)) of
              Inl e \<Rightarrow> Inl e
            | Inr t \<Rightarrow> Inr (s\<lparr>pending := t, liveDeps := Some (deps s)\<rparr>)))"

text \<open>The pending timeout fires: the loop reset, or the start of typing.\<close>

definition fireTimeout :: "Modal \<Rightarrow> Modal" where
  "fireTimeout s =
     (case pending s of
        None \<Rightarrow> s
      | Some (Cooldown tr) \<Rightarrow>
          s\<lparr>pending := None, displayedMessages := slice tr 0 (Some (- 1)), messageIndex := 0\<rparr>
      | Some (Pause m) \<Rightarrow>
          s\<lparr>pending := None, typingRole := role m, isTyping := True, currentTypingText := [],
            typeTimers := typeTimers s @ [\<lparr>currentMessage = m, charIndex = 0\<rparr>]\<rparr>)"

text \<open>
  The message a completed interval appends: the typed message with a new id and
  timestamp, from the clock read at that tick.
\<close>

definition newMessage :: "CallMessage \<Rightarrow> int \<Rightarrow> jsstring \<Rightarrow> CallMessage" where
  "newMessage m now stamp = m\<lparr>id_msg := id_msg m @ js ''-'' @ numberToString now, timestamp := stamp\<rparr>"

text \<open>
  One tick of the \<open>k\<close>-th running interval; \<open>now\<close> is \<open>Date.now()\<close> and \<open>stamp\<close> is
  \<open>new Date().toISOString()\<close> at that tick.
\<close>

definition tick :: "nat \<Rightarrow> int \<Rightarrow> jsstring \<Rightarrow> Modal \<Rightarrow> Modal" where
  "tick k now stamp s =
     (if k < length (typeTimers s)
      then let t = typeTimers s ! k; m = currentMessage t
           in if charIndex t < length (content m)
              then s\<lparr>currentTypingText := slice (content m) 0 (Some (int (charIndex t) + 1)),
                     typeTimers := (typeTimers s)[k := t\<lparr>charIndex := charIndex t + 1\<rparr>]\<rparr>
              else s\<lparr>typeTimers := take k (typeTimers s) @ drop (Suc k) (typeTimers s),
                     isTyping := False,
                     currentTypingText := [],
                     displayedMessages := displayedMessages s @ [newMessage m now stamp],
                     messageIndex := messageIndex s + 1\<rparr>
      else s)"

text \<open>
  What the browser can do to the component: fire the pending timeout, or tick the
  \<open>k\<close>-th of the running intervals, with the two clock readings the tick may take.
  What the parent can do: pass another call. A timer that is not there changes nothing.
\<close>

datatype Timer = FireTimeout | Tick nat int jsstring

datatype Event = Rebind CallRecord | Fired Timer

text \<open>
  A new \<open>call\<close> prop is rendered with the old state: the live effect sees the new
  transcript with the old \<open>isLiveDemo\<close> and \<open>messageIndex\<close>, the first effect sets the
  state, and the render that follows runs the live effect once more.
\<close>

definition rebind :: "CallMessage list \<Rightarrow> CallRecord \<Rightarrow> Modal \<Rightarrow> error + Modal" where
  "rebind sc c s =
     (case flushLive sc (s\<lparr>call := c\<rparr>) of
        Inl e \<Rightarrow> Inl e
      | Inr s1 \<Rightarrow> flushLive sc (initEffect s1))"

definition mount :: "CallMessage list \<Rightarrow> CallRecord \<Rightarrow> error + Modal" where
  "mount sc c = rebind sc c (initial c)"

text \<open>A timer callback runs, the component renders, the effects are flushed.\<close>

fun fire :: "CallMessage list \<Rightarrow> Timer \<Rightarrow> Modal \<Rightarrow> error + Modal" where
  "fire sc FireTimeout s = flushLive sc (fireTimeout s)"
| "fire sc (Tick k now stamp) s = flushLive sc (tick k now stamp s)"

fun step :: "CallMessage list \<Rightarrow> Event \<Rightarrow> Modal \<Rightarrow> error + Modal" where
  "step sc (Rebind c) s = rebind sc c s"
| "step sc (Fired t) s = fire sc t s"

fun run :: "CallMessage list \<Rightarrow> Event list \<Rightarrow> Modal \<Rightarrow> error + Modal" where
  "run sc [] s = Inr s"
| "run sc (e # es) s = (case step sc e s of Inl x \<Rightarrow> Inl x | Inr s' \<Rightarrow> run sc es s')"

definition runFrom :: "CallMessage list \<Rightarrow> CallRecord \<Rightarrow> Event list \<Rightarrow> error + Modal" where
  "runFrom sc c es = (case mount sc c of Inl x \<Rightarrow> Inl x | Inr s \<Rightarrow> run sc es s)"

text \<open>Unmounting runs the cleanup of the live effect, which clears its timeout.\<close>

definition unmount :: "Modal \<Rightarrow> Modal" where
  "unmount s = s\<lparr>pending := None\<rparr>"

subsection \<open>Executions of one binding\<close>

text \<open>
  The timers that type one message out: the pause fires, the interval ticks once per
  code unit, and one more time to commit. \<open>playback ms clk k\<close> types the first \<open>k\<close>
  messages of \<open>ms\<close>, the \<open>i\<close>-th one committed at clock reading \<open>clk i\<close>, and
  \<open>committed ms clk k\<close> are the messages these commits append. \<open>cycles ms clks n\<close> are
  \<open>n\<close> whole cycles over \<open>ms\<close>, each ended by the loop reset, with the clock readings
  \<open>clks j\<close> in cycle \<open>j\<close>. \<open>ticks cs\<close> are ticks of the first running interval, one per
  clock reading.
\<close>

definition typeOut :: "CallMessage \<Rightarrow> int \<Rightarrow> jsstring \<Rightarrow> Timer list" where
  "typeOut m now stamp = FireTimeout # replicate (Suc (length (content m))) (Tick 0 now stamp)"

definition playback :: "CallMessage list \<Rightarrow> (nat \<Rightarrow> int \<times> jsstring) \<Rightarrow> nat \<Rightarrow> Timer list" where
  "playback ms clk k = concat (map (\<lambda>i. typeOut (ms ! i) (fst (clk i)) (snd (clk i))) [0..<k])"

definition committed ::
  "CallMessage list \<Rightarrow> (nat \<Rightarrow> int \<times> jsstring) \<Rightarrow> nat \<Rightarrow> CallMessage list" where
  "committed ms clk k = map (\<lambda>i. newMessage (ms ! i) (fst (clk i)) (snd (clk i))) [0..<k]"

definition cycles ::
  "CallMessage list \<Rightarrow> (nat \<Rightarrow> nat \<Rightarrow> int \<times> jsstring) \<Rightarrow> nat \<Rightarrow> Timer list" where
  "cycles ms clks n = concat (map (\<lambda>j. playback ms (clks j) (length ms) @ [FireTimeout]) [0..<n])"

definition ticks :: "(int \<times> jsstring) list \<Rightarrow> Timer list" where
  "ticks cs = map (\<lambda>(now, stamp). Tick 0 now stamp) cs"

text \<open>What a run leaves of one state variable, when it does not raise.\<close>

definition observe :: "(Modal \<Rightarrow> 'a) \<Rightarrow> error + Modal \<Rightarrow> 'a option" where
  "observe f res = (case res of Inl e \<Rightarrow> None | Inr s \<Rightarrow> Some (f s))"

subsection \<open>States and invariants\<close>

text \<open>
  The live effect is settled when it last ran with the present dependencies, which is
  so after every flush; \<open>scheduled\<close> is the timeout its body leaves.
\<close>

definition settled :: "Modal \<Rightarrow> bool" where
  "settled s = (liveDeps s = Some (deps s))"

definition scheduled :: "CallMessage list \<Rightarrow> Modal \<Rightarrow> Timeout option" where
  "scheduled sc s =
     (if \<not> isLiveDemo s then None
      else if messageIndex s \<ge> length (allMessages sc (transcript (call s)))
           then Some (Cooldown (transcript (call s)))
           else Some (Pause (allMessages sc (transcript (call s)) ! messageIndex s)))"

text \<open>
  The state of a live binding of \<open>c\<close> between two messages: \<open>k\<close> messages of the cycle
  are committed, \<open>shown\<close> is displayed, nothing is being typed, and the one pending
  timer is the pause before message \<open>k\<close>, or the loop reset after the last one.
  \<open>lastRole ms k r\<close> is the role last typed after \<open>k\<close> messages of a cycle that began
  with \<open>r\<close>.
\<close>

definition playing ::
  "CallMessage list \<Rightarrow> CallRecord \<Rightarrow> nat \<Rightarrow> CallMessage list \<Rightarrow> Role \<Rightarrow> Modal" where
  "playing sc c k shown r =
     \<lparr>call = c, displayedMessages = shown, currentTypingText = [], isTyping = False,
      typingRole = r, messageIndex = k, isLiveDemo = True,
      liveDeps = Some (True, k, transcriptRef c),
      pending = (if length (allMessages sc (transcript c)) \<le> k
                 then Some (Cooldown (transcript c))
                 else Some (Pause (allMessages sc (transcript c) ! k))),
      typeTimers = []\<rparr>"

definition lastRole :: "CallMessage list \<Rightarrow> nat \<Rightarrow> Role \<Rightarrow> Role" where
  "lastRole ms k r = (if k = 0 then r else role (ms ! (k - 1)))"

text \<open>The state of a binding of \<open>c\<close> that plays nothing: all shown, no timer.\<close>

definition still :: "CallRecord \<Rightarrow> Role \<Rightarrow> nat \<Rightarrow> jsstring \<Rightarrow> Modal" where
  "still c r k txt =
     \<lparr>call = c, displayedMessages = transcript c, currentTypingText = txt, isTyping = False,
      typingRole = r, messageIndex = k, isLiveDemo = False,
      liveDeps = Some (False, k, transcriptRef c), pending = None, typeTimers = []\<rparr>"

text \<open>
  What every state the component can reach satisfies: the live effect is settled, a
  timeout is pending only in a live demo, and something is typed only while an
  interval runs.
\<close>

definition sound :: "Modal \<Rightarrow> bool" where
  "sound s = (settled s \<and> (isLiveDemo s \<or> pending s = None) \<and> (typeTimers s \<noteq> [] \<or> \<not> isTyping s))"

text \<open>A state in which no interval runs and nothing is typed, as a flush leaves it.\<close>

definition quiet :: "Modal \<Rightarrow> bool" where
  "quiet s = (settled s \<and> typeTimers s = [] \<and> \<not> isTyping s \<and> (isLiveDemo s \<or> pending s = None))"

text \<open>
  The tick of interval \<open>k\<close> is its last when the interval has revealed all of its
  message; the timeout is the loop reset when the pending timer is the cooldown.
\<close>

definition committing :: "Modal \<Rightarrow> nat \<Rightarrow> bool" where
  "committing s k =
     (k < length (typeTimers s) \<and>
      \<not> charIndex (typeTimers s ! k) < length (content (currentMessage (typeTimers s ! k))))"

definition resetting :: "Modal \<Rightarrow> bool" where
  "resetting s = (case pending s of Some (Cooldown tr) \<Rightarrow> True | _ \<Rightarrow> False)"

text \<open>
  What the timers of one binding of \<open>c\<close> keep true: the call, the transcript a pending
  loop reset captured, and the part of the display that was there at binding.
\<close>

definition bound :: "CallRecord \<Rightarrow> Modal \<Rightarrow> bool" where
  "bound c s =
     (call s = c \<and>
      (case pending s of Some (Cooldown tr) \<Rightarrow> tr = transcript c | _ \<Rightarrow> True) \<and>
      prefix (butlast (transcript c)) (displayedMessages s))"

text \<open>The number a string of decimal digits denotes.\<close>

definition decode :: "jsstring \<Rightarrow> nat" where
  "decode ds = foldl (\<lambda>a d. 10 * a + (unat d - 48)) 0 ds"

subsection \<open>Example calls\<close>

text \<open>A call in progress whose transcript holds one message.\<close>

definition greeting :: CallMessage where
  "greeting = \<lparr>id_msg = js ''m1'', role = ai, content = js ''Hi'',
     timestamp = js ''2024-05-01T10:00:00.000Z''\<rparr>"

definition liveCall :: CallRecord where
  "liveCall = \<lparr>status = in_progress, transcript = [greeting], transcriptRef = 1\<rparr>"

text \<open>A call in progress whose transcript is still empty.\<close>

definition silentCall :: CallRecord where
  "silentCall = \<lparr>status = in_progress, transcript = [], transcriptRef = 4\<rparr>"

text \<open>A completed call with five messages, and a missed call with none.\<close>

definition archivedCall :: CallRecord where
  "archivedCall = \<lparr>status = completed,
     transcript = [
       \<lparr>id_msg = js ''h1'', role = ai, content = js ''Hello'', timestamp = js ''10:00''\<rparr>,
       \<lparr>id_msg = js ''h2'', role = customer, content = js ''Soup'', timestamp = js ''10:01''\<rparr>,
       \<lparr>id_msg = js ''h3'', role = ai, content = js ''Sure'', timestamp = js ''10:02''\<rparr>,
       \<lparr>id_msg = js ''h4'', role = customer, content = js ''Thanks'', timestamp = js ''10:03''\<rparr>,
       \<lparr>id_msg = js ''h5'', role = ai, content = js ''Bye'', timestamp = js ''10:04''\<rparr>],
     transcriptRef = 2\<rparr>"

definition missedCall :: CallRecord where
  "missedCall = \<lparr>status = missed, transcript = [], transcriptRef = 5\<rparr>"

text \<open>
  The scenario of the specification: a transcript that holds the assistant's message
  A, and a continuation of two messages, Q1 of the customer and A1 of the assistant.
\<close>

definition scenarioA :: CallMessage where
  "scenarioA = \<lparr>id_msg = js ''A'', role = ai, content = js ''A'', timestamp = js ''09:00''\<rparr>"

definition scenarioQ1 :: CallMessage where
  "scenarioQ1 = \<lparr>id_msg = js ''Q1'', role = customer, content = js ''Q1'', timestamp = []\<rparr>"

definition scenarioA1 :: CallMessage where
  "scenarioA1 = \<lparr>id_msg = js ''A1'', role = ai, content = js ''A1'', timestamp = []\<rparr>"

definition scenarioCall :: CallRecord where
  "scenarioCall = \<lparr>status = in_progress, transcript = [scenarioA], transcriptRef = 3\<rparr>"

definition scenarioScript :: "CallMessage list" where
  "scenarioScript = [scenarioQ1, scenarioA1]"

text \<open>
  The call in progress is bound, the pause fires, one tick shows \<open>H\<close>; then the
  completed call is bound in its place.
\<close>

definition interrupted :: "Event list" where
  "interrupted = map Fired (FireTimeout # ticks [(0, [])]) @ [Rebind archivedCall]"

section \<open>Properties\<close>

subsection \<open>Slices, effects and single timers\<close>

lemma cadence:
  "typingSpeed ai = 30 \<and> typingSpeed customer = 50 \<and>
   delay (Pause m) = (if role m = customer then 1500 else 800) \<and> delay (Cooldown tr) = 3000"
  by (simp add: typingSpeed_def pauseBeforeTyping_def)

lemma slice_init: "slice xs 0 (Some (- 1)) = butlast xs"
  by (simp add: slice_def butlast_conv_take nat_diff_distrib' max_def)

lemma slice_last: "slice xs (- 1) None = (if xs = [] then [] else [last xs])"
proof (cases xs rule: rev_cases)
  case Nil
  then show ?thesis by (simp add: slice_def)
next
  case (snoc ys y)
  then show ?thesis by (simp add: slice_def)
qed

lemma slice_prefix: "slice xs 0 (Some (int n + 1)) = take (Suc n) xs"
  by (auto simp: slice_def Let_def min_def nat_add_distrib)

lemma liveBody_Inr:
  "liveBody sc (isLiveDemo s) (messageIndex s) (transcript (call s)) = Inr (scheduled sc s)"
  by (simp add: liveBody_def scheduled_def at_index_def)

lemma flushLive_Inr:
  "flushLive sc s =
     Inr (if settled s then s else s\<lparr>pending := scheduled sc s, liveDeps := Some (deps s)\<rparr>)"
  by (simp add: flushLive_def liveBody_Inr settled_def)

lemma flushLive_settled: "settled s \<Longrightarrow> flushLive sc s = Inr s"
  by (simp add: flushLive_Inr)

lemma run_append:
  "run sc (xs @ ys) s = (case run sc xs s of Inl x \<Rightarrow> Inl x | Inr s' \<Rightarrow> run sc ys s')"
  by (induction xs arbitrary: s) (auto split: sum.splits)

lemma fire_pause:
  assumes "settled s" and "pending s = Some (Pause m)"
  shows "fire sc FireTimeout s =
     Inr (s\<lparr>pending := None, typingRole := role m, isTyping := True, currentTypingText := [],
            typeTimers := typeTimers s @ [\<lparr>currentMessage = m, charIndex = 0\<rparr>]\<rparr>)"
proof -
  let ?s' = "s\<lparr>pending := None, typingRole := role m, isTyping := True, currentTypingText := [],
            typeTimers := typeTimers s @ [\<lparr>currentMessage = m, charIndex = 0\<rparr>]\<rparr>"
  have "fireTimeout s = ?s'" using assms(2) by (simp add: fireTimeout_def)
  moreover have "settled ?s'" using assms(1) by (simp add: settled_def deps_def)
  ultimately show ?thesis by (simp add: flushLive_settled)
qed

lemma fire_reveal:
  assumes "settled s" and "typeTimers s = [\<lparr>currentMessage = m, charIndex = i\<rparr>]"
    and "i < length (content m)"
  shows "fire sc (Tick 0 now stamp) s =
     Inr (s\<lparr>currentTypingText := take (Suc i) (content m),
            typeTimers := [\<lparr>currentMessage = m, charIndex = Suc i\<rparr>]\<rparr>)"
proof -
  let ?s' = "s\<lparr>currentTypingText := take (Suc i) (content m),
            typeTimers := [\<lparr>currentMessage = m, charIndex = Suc i\<rparr>]\<rparr>"
  have "tick 0 now stamp s = ?s'" using assms(2,3) by (simp add: tick_def slice_prefix)
  moreover have "settled ?s'" using assms(1) by (simp add: settled_def deps_def)
  ultimately show ?thesis by (simp add: flushLive_settled)
qed

lemma fire_commit:
  assumes "typeTimers s = [\<lparr>currentMessage = m, charIndex = i\<rparr>]"
    and "length (content m) \<le> i"
  shows "fire sc (Tick 0 now stamp) s =
     flushLive sc (s\<lparr>typeTimers := [], isTyping := False, currentTypingText := [],
            displayedMessages := displayedMessages s @ [newMessage m now stamp],
            messageIndex := Suc (messageIndex s)\<rparr>)"
  using assms by (simp add: tick_def)

lemma run_reveal:
  assumes "settled s" and "typeTimers s = [\<lparr>currentMessage = m, charIndex = i\<rparr>]"
    and "currentTypingText s = take i (content m)"
    and "i + length cs \<le> length (content m)"
  shows "run sc (map (\<lambda>(now, stamp). Fired (Tick 0 now stamp)) cs) s =
     Inr (s\<lparr>currentTypingText := take (i + length cs) (content m),
            typeTimers := [\<lparr>currentMessage = m, charIndex = i + length cs\<rparr>]\<rparr>)"
  using assms
proof (induction cs arbitrary: s i)
  case Nil
  then show ?case by simp
next
  case (Cons c cs)
  obtain now stamp where c: "c = (now, stamp)" by (cases c)
  let ?s' = "s\<lparr>currentTypingText := take (Suc i) (content m),
            typeTimers := [\<lparr>currentMessage = m, charIndex = Suc i\<rparr>]\<rparr>"
  have i: "i < length (content m)" using Cons.prems(4) by simp
  have f: "fire sc (Tick 0 now stamp) s = Inr ?s'"
    by (rule fire_reveal [OF Cons.prems(1,2) i])
  have "run sc (map (\<lambda>(now, stamp). Fired (Tick 0 now stamp)) cs) ?s' =
     Inr (?s'\<lparr>currentTypingText := take (Suc i + length cs) (content m),
            typeTimers := [\<lparr>currentMessage = m, charIndex = Suc i + length cs\<rparr>]\<rparr>)"
  proof (rule Cons.IH)
    show "settled ?s'" using Cons.prems(1) by (simp add: settled_def deps_def)
  qed (use Cons.prems(4) in simp_all)
  then show ?case using f c by simp
qed

lemma settled_playing: "settled (playing sc c k shown r)"
  by (simp add: settled_def deps_def playing_def)

lemma typeOut_playing:
  assumes "k < length (allMessages sc (transcript c))"
  shows "run sc (map Fired (typeOut (allMessages sc (transcript c) ! k) now stamp))
           (playing sc c k shown r) =
     Inr (playing sc c (Suc k)
            (shown @ [newMessage (allMessages sc (transcript c) ! k) now stamp])
            (role (allMessages sc (transcript c) ! k)))"
proof -
  let ?m = "allMessages sc (transcript c) ! k"
  let ?n = "length (content ?m)"
  let ?s0 = "playing sc c k shown r"
  let ?s1 = "?s0\<lparr>pending := None, typingRole := role ?m, isTyping := True,
              currentTypingText := [],
              typeTimers := typeTimers ?s0 @ [\<lparr>currentMessage = ?m, charIndex = 0\<rparr>]\<rparr>"
  let ?s2 = "?s1\<lparr>currentTypingText := take (0 + length (replicate ?n (now, stamp))) (content ?m),
              typeTimers := [\<lparr>currentMessage = ?m,
                 charIndex = 0 + length (replicate ?n (now, stamp))\<rparr>]\<rparr>"
  have p: "pending ?s0 = Some (Pause ?m)" using assms by (simp add: playing_def)
  have 1: "fire sc FireTimeout ?s0 = Inr ?s1"
    by (rule fire_pause [OF settled_playing p])
  have s1: "settled ?s1" by (simp add: settled_def deps_def playing_def)
  have 2: "run sc (map (\<lambda>(now, stamp). Fired (Tick 0 now stamp)) (replicate ?n (now, stamp))) ?s1
             = Inr ?s2"
    by (rule run_reveal [OF s1]) (simp_all add: playing_def)
  have t2: "typeTimers ?s2 = [\<lparr>currentMessage = ?m, charIndex = ?n\<rparr>]" by simp
  have 3: "fire sc (Tick 0 now stamp) ?s2 =
     Inr (playing sc c (Suc k) (shown @ [newMessage ?m now stamp]) (role ?m))"
    unfolding fire_commit [OF t2 order_refl] flushLive_Inr
    by (simp add: settled_def deps_def playing_def scheduled_def)
  have "typeOut ?m now stamp =
     FireTimeout # replicate ?n (Tick 0 now stamp) @ [Tick 0 now stamp]"
    by (simp add: typeOut_def replicate_append_same)
  then show ?thesis
    using 1 2 3 by (simp add: run_append del: replicate.simps)
qed

subsection \<open>Binding and whole cycles\<close>

lemma allMessages_eq:
  "allMessages sc tr = (if tr = [] then sc else last tr # sc)"
  by (simp add: allMessages_def slice_last)

lemma rebind_Inr:
  "rebind sc c s = flushLive sc (initEffect
      (if settled (s\<lparr>call := c\<rparr>) then s\<lparr>call := c\<rparr>
       else s\<lparr>call := c, pending := scheduled sc (s\<lparr>call := c\<rparr>),
              liveDeps := Some (deps (s\<lparr>call := c\<rparr>))\<rparr>))"
  by (simp add: rebind_def flushLive_Inr)

lemma mount_live:
  assumes "status c = in_progress"
  shows "mount sc c = Inr (playing sc c 0 (butlast (transcript c)) ai)"
  using assms
  by (simp add: mount_def rebind_Inr flushLive_Inr initial_def initEffect_def settled_def
      deps_def scheduled_def playing_def slice_init)

lemma mount_static:
  assumes "status c \<noteq> in_progress"
  shows "mount sc c = Inr (still c ai 0 [])"
  using assms
  by (simp add: mount_def rebind_Inr flushLive_Inr initial_def initEffect_def settled_def
      deps_def scheduled_def still_def)

lemma cooldown_playing:
  assumes "length (allMessages sc (transcript c)) \<le> k" and "0 < k"
  shows "fire sc FireTimeout (playing sc c k shown r) =
     Inr (playing sc c 0 (butlast (transcript c)) r)"
  using assms
  by (simp add: fireTimeout_def flushLive_Inr playing_def settled_def deps_def scheduled_def
      slice_init)

lemma playback_Suc:
  "playback ms clk (Suc k) = playback ms clk k @ typeOut (ms ! k) (fst (clk k)) (snd (clk k))"
  by (simp add: playback_def)

lemma committed_Suc:
  "committed ms clk (Suc k) = committed ms clk k @ [newMessage (ms ! k) (fst (clk k)) (snd (clk k))]"
  by (simp add: committed_def)

lemma playback_playing:
  assumes "k \<le> length (allMessages sc (transcript c))"
  shows "run sc (map Fired (playback (allMessages sc (transcript c)) clk k))
           (playing sc c 0 shown r) =
     Inr (playing sc c k (shown @ committed (allMessages sc (transcript c)) clk k)
            (lastRole (allMessages sc (transcript c)) k r))"
  using assms
proof (induction k)
  case 0
  then show ?case by (simp add: playback_def committed_def lastRole_def)
next
  case (Suc k)
  then have k: "k < length (allMessages sc (transcript c))" by simp
  show ?case
    using Suc.IH k typeOut_playing [OF k]
    by (simp add: playback_Suc committed_Suc run_append lastRole_def)
qed

lemma cycle_playing:
  assumes "allMessages sc (transcript c) \<noteq> []"
  shows "run sc (map Fired (playback (allMessages sc (transcript c)) clk
                     (length (allMessages sc (transcript c))) @ [FireTimeout]))
           (playing sc c 0 (butlast (transcript c)) r) =
     Inr (playing sc c 0 (butlast (transcript c)) (role (last (allMessages sc (transcript c)))))"
proof -
  let ?ms = "allMessages sc (transcript c)"
  have n: "0 < length ?ms" using assms by simp
  have r: "lastRole ?ms (length ?ms) r = role (last ?ms)"
    using assms by (simp add: lastRole_def last_conv_nth)
  show ?thesis
    using playback_playing [of "length ?ms" sc c clk "butlast (transcript c)" r]
      cooldown_playing [OF order_refl n] r
    by (simp add: run_append)
qed

lemma length_allMessages:
  "length (allMessages sc tr) = length sc + (if tr = [] then 0 else 1)"
  by (simp add: allMessages_eq)

lemma runFrom_live:
  "status c = in_progress \<Longrightarrow>
     runFrom sc c es = run sc es (playing sc c 0 (butlast (transcript c)) ai)"
  by (simp add: runFrom_def mount_live)

lemma length_simulatedContinuation: "length simulatedContinuation = 12"
  by (simp add: simulatedContinuation_def)

subsection \<open>No run raises; states without timers\<close>

lemma flushLive_form:
  "flushLive sc s =
     Inr (s\<lparr>pending := (if settled s then pending s else scheduled sc s),
            liveDeps := Some (deps s)\<rparr>)"
  by (simp add: flushLive_Inr settled_def)

lemma fire_total: "\<exists>s'. fire sc t s = Inr s'"
  by (cases t) (simp_all add: flushLive_Inr)

lemma step_total: "\<exists>s'. step sc e s = Inr s'"
  by (cases e) (simp_all add: fire_total rebind_Inr flushLive_Inr)

lemma run_total: "\<exists>s'. run sc es s = Inr s'"
proof (induction es arbitrary: s)
  case Nil
  then show ?case by simp
next
  case (Cons e es)
  obtain s1 where "step sc e s = Inr s1" using step_total by blast
  then show ?case using Cons.IH [of s1] by simp
qed

lemma runFrom_total: "\<exists>s'. runFrom sc c es = Inr s'"
proof -
  obtain s0 where "mount sc c = Inr s0"
    unfolding mount_def rebind_Inr flushLive_Inr by blast
  then show ?thesis using run_total [of sc es s0] by (simp add: runFrom_def)
qed

lemma fire_idle:
  assumes "settled s" and "pending s = None" and "typeTimers s = []"
  shows "fire sc t s = Inr s"
proof (cases t)
  case FireTimeout
  then show ?thesis using assms by (simp add: fireTimeout_def flushLive_settled)
next
  case (Tick k now stamp)
  then show ?thesis using assms by (simp add: tick_def flushLive_settled)
qed

lemma run_idle:
  assumes "settled s" and "pending s = None" and "typeTimers s = []"
  shows "run sc (map Fired ts) s = Inr s"
  by (induction ts) (simp_all add: fire_idle [OF assms])

lemma cycles_Suc:
  "cycles ms clks (Suc n) = cycles ms clks n @ playback ms (clks n) (length ms) @ [FireTimeout]"
  by (simp add: cycles_def)

lemma cycles_playing:
  assumes "allMessages sc (transcript c) \<noteq> []"
  shows "run sc (map Fired (cycles (allMessages sc (transcript c)) clks n))
           (playing sc c 0 (butlast (transcript c)) r) =
     Inr (playing sc c 0 (butlast (transcript c))
            (if n = 0 then r else role (last (allMessages sc (transcript c)))))"
proof (induction n)
  case 0
  then show ?case by (simp add: cycles_def)
next
  case (Suc n)
  let ?ms = "allMessages sc (transcript c)"
  have "run sc (map Fired (cycles ?ms clks (Suc n))) (playing sc c 0 (butlast (transcript c)) r) =
     (case run sc (map Fired (cycles ?ms clks n)) (playing sc c 0 (butlast (transcript c)) r) of
        Inl x \<Rightarrow> Inl x
      | Inr s' \<Rightarrow> run sc (map Fired (playback ?ms (clks n) (length ?ms) @ [FireTimeout])) s')"
    by (simp only: cycles_Suc map_append run_append)
  then show ?case
    by (simp only: Suc.IH sum.case cycle_playing [OF assms]) simp
qed

subsection \<open>The decimal rendering of the clock\<close>

lemma unat_digitChar: "d < 10 \<Longrightarrow> unat (digitChar d) = 48 + d"
  unfolding digitChar_def unat_of_nat by simp

lemma decode_snoc: "decode (ds @ [d]) = 10 * decode ds + (unat d - 48)"
  by (simp add: decode_def)

lemma decode_digits: "decode (digits n) = n"
proof (induction n rule: digits.induct)
  case (1 n)
  show ?case
  proof (cases "n < 10")
    case True
    then show ?thesis by (simp add: digits.simps [of n] decode_def unat_digitChar)
  next
    case False
    then show ?thesis
      using "1.IH" by (simp add: digits.simps [of n] decode_snoc unat_digitChar)
  qed
qed

lemma digits_inj: "digits a = digits b \<Longrightarrow> a = b"
  by (metis decode_digits)

lemma digitChar_not_minus: "d < 10 \<Longrightarrow> digitChar d \<noteq> 45"
  using unat_digitChar [of d] by (auto simp: )

lemma hd_digits: "\<exists>d ds. d < 10 \<and> digits n = digitChar d # ds"
proof (induction n rule: digits.induct)
  case (1 n)
  show ?case
  proof (cases "n < 10")
    case True
    then show ?thesis by (auto simp: digits.simps [of n])
  next
    case False
    then obtain d ds where "d < 10" and "digits (n div 10) = digitChar d # ds"
      using "1.IH" by blast
    then show ?thesis using False by (auto simp: digits.simps [of n])
  qed
qed

lemma numberToString_inj:
  assumes "numberToString a = numberToString b"
  shows "a = b"
proof -
  have neq: "js ''-'' @ digits x \<noteq> digits y" for x y
  proof -
    obtain d ds where "d < 10" and "digits y = digitChar d # ds" using hd_digits by blast
    then show ?thesis using digitChar_not_minus [of d] by (auto simp: js_def)
  qed
  show ?thesis
  proof (cases "a < 0")
    case True
    show ?thesis
    proof (cases "b < 0")
      case True
      with \<open>a < 0\<close> assms have "nat (- a) = nat (- b)"
        by (auto simp: numberToString_def dest: digits_inj)
      with True \<open>a < 0\<close> show ?thesis by simp
    next
      case False
      with \<open>a < 0\<close> assms neq show ?thesis by (auto simp: numberToString_def)
    qed
  next
    case False
    show ?thesis
    proof (cases "b < 0")
      case True
      with False assms neq [of "nat (- b)" "nat a"] show ?thesis
        by (auto simp: numberToString_def)
    next
      case b: False
      with False assms have "nat a = nat b"
        by (auto simp: numberToString_def dest: digits_inj)
      with False b show ?thesis by simp
    qed
  qed
qed

lemma newMessage_id_inj:
  "id_msg (newMessage m now stamp) = id_msg (newMessage m now' stamp') \<longleftrightarrow> now = now'"
  by (auto simp: newMessage_def dest: numberToString_inj)

subsection \<open>Runs from the mount\<close>

lemma observe_Inr: "observe f (Inr s) = Some (f s)"
  by (simp add: observe_def)

lemma runFrom_cycles:
  assumes "status c = in_progress" and "allMessages sc (transcript c) \<noteq> []"
  shows "runFrom sc c (map Fired (cycles (allMessages sc (transcript c)) clks n @ ts)) =
     run sc (map Fired ts) (playing sc c 0 (butlast (transcript c))
        (if n = 0 then ai else role (last (allMessages sc (transcript c)))))"
  by (simp only: runFrom_live [OF assms(1)] map_append run_append cycles_playing [OF assms(2)]
      sum.case)

lemma runFrom_cycles_playback:
  assumes "status c = in_progress" and "allMessages sc (transcript c) \<noteq> []"
    and "k \<le> length (allMessages sc (transcript c))"
  shows "runFrom sc c (map Fired (cycles (allMessages sc (transcript c)) clks n @
            playback (allMessages sc (transcript c)) clk k)) =
     Inr (playing sc c k (butlast (transcript c) @ committed (allMessages sc (transcript c)) clk k)
        (lastRole (allMessages sc (transcript c)) k
           (if n = 0 then ai else role (last (allMessages sc (transcript c))))))"
  by (simp only: runFrom_cycles [OF assms(1,2)] playback_playing [OF assms(3)])

lemma scenario_all:
  "allMessages scenarioScript (transcript scenarioCall) = [scenarioA, scenarioQ1, scenarioA1]"
  by (simp add: allMessages_eq scenarioCall_def scenarioScript_def)

lemma scenario_live: "status scenarioCall = in_progress"
  by (simp add: scenarioCall_def)

lemma scenario_shown: "butlast (transcript scenarioCall) = []"
  by (simp add: scenarioCall_def)

lemma scenario_role: "(if n = 0 then ai else role (last [scenarioA, scenarioQ1, scenarioA1])) = ai"
  by (simp add: scenarioA1_def)

lemma scenario_run:
  assumes "k \<le> 3"
  shows "runFrom scenarioScript scenarioCall
      (map Fired (cycles [scenarioA, scenarioQ1, scenarioA1] clks n @
                  playback [scenarioA, scenarioQ1, scenarioA1] clk k)) =
     Inr (playing scenarioScript scenarioCall k (committed [scenarioA, scenarioQ1, scenarioA1] clk k)
            (lastRole [scenarioA, scenarioQ1, scenarioA1] k ai))"
proof -
  have ne: "allMessages scenarioScript (transcript scenarioCall) \<noteq> []"
    by (simp add: scenario_all)
  have k: "k \<le> length (allMessages scenarioScript (transcript scenarioCall))"
    using assms by (simp add: scenario_all)
  show ?thesis
    using runFrom_cycles_playback [OF scenario_live ne k, of clks n clk]
    by (simp only: scenario_all scenario_shown scenario_role append_Nil)
qed

lemma runFrom_cycles_reset:
  assumes "status c = in_progress" and "allMessages sc (transcript c) \<noteq> []"
  shows "runFrom sc c (map Fired (cycles (allMessages sc (transcript c)) clks n @
            playback (allMessages sc (transcript c)) clk (length (allMessages sc (transcript c))) @
            [FireTimeout])) =
     Inr (playing sc c 0 (butlast (transcript c)) (role (last (allMessages sc (transcript c)))))"
  by (simp only: runFrom_cycles [OF assms] cycle_playing [OF assms(2)])

lemma scenario_reset:
  "runFrom scenarioScript scenarioCall
      (map Fired (cycles [scenarioA, scenarioQ1, scenarioA1] clks n @
                  playback [scenarioA, scenarioQ1, scenarioA1] clk 3 @ [FireTimeout])) =
     Inr (playing scenarioScript scenarioCall 0 [] ai)"
proof -
  have ne: "allMessages scenarioScript (transcript scenarioCall) \<noteq> []"
    by (simp add: scenario_all)
  have l: "length [scenarioA, scenarioQ1, scenarioA1] = 3" by simp
  have r: "role (last [scenarioA, scenarioQ1, scenarioA1]) = ai" by (simp add: scenarioA1_def)
  show ?thesis
    using runFrom_cycles_reset [OF scenario_live ne, of clks n clk]
    by (simp only: scenario_all scenario_shown l r)
qed

lemma committed_upto:
  "committed ms clk 0 = []"
  "committed ms clk 1 = [newMessage (ms ! 0) (fst (clk 0)) (snd (clk 0))]"
  "committed ms clk 2 = [newMessage (ms ! 0) (fst (clk 0)) (snd (clk 0)),
                         newMessage (ms ! 1) (fst (clk 1)) (snd (clk 1))]"
  "committed ms clk 3 = [newMessage (ms ! 0) (fst (clk 0)) (snd (clk 0)),
                         newMessage (ms ! 1) (fst (clk 1)) (snd (clk 1)),
                         newMessage (ms ! 2) (fst (clk 2)) (snd (clk 2))]"
  by (simp_all add: committed_def upt_rec numeral_2_eq_2 numeral_3_eq_3)

subsection \<open>Typing one message\<close>

lemma map_Fired_ticks:
  "map Fired (ticks cs) = map (\<lambda>(now, stamp). Fired (Tick 0 now stamp)) cs"
  by (induction cs) (auto simp: ticks_def)

lemma run_snoc:
  assumes "run sc xs s = Inr s'" and "step sc e s' = Inr s''"
  shows "run sc (xs @ [e]) s = Inr s''"
  using assms by (simp add: run_append)

lemma typing_run:
  assumes "settled s" and "pending s = Some (Pause m)" and "typeTimers s = []"
    and "length cs \<le> length (content m)"
  shows "run sc (map Fired (FireTimeout # ticks cs)) s =
     Inr (s\<lparr>pending := None, typingRole := role m, isTyping := True,
            currentTypingText := take (length cs) (content m),
            typeTimers := [\<lparr>currentMessage = m, charIndex = length cs\<rparr>]\<rparr>)"
proof -
  let ?s1 = "s\<lparr>pending := None, typingRole := role m, isTyping := True, currentTypingText := [],
            typeTimers := typeTimers s @ [\<lparr>currentMessage = m, charIndex = 0\<rparr>]\<rparr>"
  have 1: "fire sc FireTimeout s = Inr ?s1" by (rule fire_pause [OF assms(1,2)])
  have s1: "settled ?s1" using assms(1) by (simp add: settled_def deps_def)
  have 2: "run sc (map (\<lambda>(now, stamp). Fired (Tick 0 now stamp)) cs) ?s1 =
     Inr (?s1\<lparr>currentTypingText := take (0 + length cs) (content m),
            typeTimers := [\<lparr>currentMessage = m, charIndex = 0 + length cs\<rparr>]\<rparr>)"
    by (rule run_reveal [OF s1]) (use assms(3,4) in simp_all)
  show ?thesis
    using 1 2 by (simp add: map_Fired_ticks del: fire.simps)
qed

lemma commit_run:
  assumes "settled s" and "pending s = Some (Pause m)" and "typeTimers s = []"
    and "length cs = length (content m)"
  shows "\<exists>p. run sc (map Fired (FireTimeout # ticks cs @ [Tick 0 now stamp])) s =
     Inr (s\<lparr>pending := p, typingRole := role m, isTyping := False,
            currentTypingText := [], typeTimers := [],
            displayedMessages := displayedMessages s @ [newMessage m now stamp],
            messageIndex := Suc (messageIndex s),
            liveDeps := Some (isLiveDemo s, Suc (messageIndex s), transcriptRef (call s))\<rparr>)"
proof -
  let ?s2 = "s\<lparr>pending := None, typingRole := role m, isTyping := True,
            currentTypingText := take (length cs) (content m),
            typeTimers := [\<lparr>currentMessage = m, charIndex = length cs\<rparr>]\<rparr>"
  have le: "length cs \<le> length (content m)" using assms(4) by simp
  have 1: "run sc (map Fired (FireTimeout # ticks cs)) s = Inr ?s2"
    by (rule typing_run [OF assms(1,2,3) le])
  have t: "typeTimers ?s2 = [\<lparr>currentMessage = m, charIndex = length cs\<rparr>]" by simp
  have c: "length (content m) \<le> length cs" using assms(4) by simp
  have 2: "fire sc (Tick 0 now stamp) ?s2 =
     flushLive sc (?s2\<lparr>typeTimers := [], isTyping := False, currentTypingText := [],
            displayedMessages := displayedMessages ?s2 @ [newMessage m now stamp],
            messageIndex := Suc (messageIndex ?s2)\<rparr>)"
    by (rule fire_commit [OF t c])
  let ?s3 = "?s2\<lparr>typeTimers := [], isTyping := False, currentTypingText := [],
            displayedMessages := displayedMessages ?s2 @ [newMessage m now stamp],
            messageIndex := Suc (messageIndex ?s2)\<rparr>"
  have 3: "step sc (Fired (Tick 0 now stamp)) ?s2 =
     Inr (?s3\<lparr>pending := (if settled ?s3 then pending ?s3 else scheduled sc ?s3),
            liveDeps := Some (deps ?s3)\<rparr>)"
    unfolding step.simps 2 by (rule flushLive_form)
  have e: "map Fired (FireTimeout # ticks cs @ [Tick 0 now stamp]) =
      map Fired (FireTimeout # ticks cs) @ [Fired (Tick 0 now stamp)]"
    by simp
  have r: "run sc (map Fired (FireTimeout # ticks cs @ [Tick 0 now stamp])) s =
     Inr (?s3\<lparr>pending := (if settled ?s3 then pending ?s3 else scheduled sc ?s3),
            liveDeps := Some (deps ?s3)\<rparr>)"
    unfolding e by (rule run_snoc [OF 1 3])
  show ?thesis
    unfolding r
    by (rule exI [of _ "if settled ?s3 then pending ?s3 else scheduled sc ?s3"])
      (simp add: deps_def)
qed

subsection \<open>What the timers of one binding keep\<close>

lemma flushLive_displayed:
  "flushLive sc s = Inr s' \<Longrightarrow>
     displayedMessages s' = displayedMessages s \<and> call s' = call s \<and>
     typeTimers s' = typeTimers s \<and> isTyping s' = isTyping s \<and>
     currentTypingText s' = currentTypingText s \<and> messageIndex s' = messageIndex s"
  by (auto simp: flushLive_Inr split: if_splits)

lemma flushLive_cooldown:
  assumes "flushLive sc s = Inr s'"
    and "case pending s of Some (Cooldown tr) \<Rightarrow> tr = transcript (call s) | _ \<Rightarrow> True"
  shows "case pending s' of Some (Cooldown tr) \<Rightarrow> tr = transcript (call s') | _ \<Rightarrow> True"
  using assms by (auto simp: flushLive_Inr scheduled_def split: if_splits)

lemma bound_flushLive:
  assumes "bound c s" and "flushLive sc s = Inr s'"
  shows "bound c s'"
proof -
  have c: "call s = c" and d: "prefix (butlast (transcript c)) (displayedMessages s)"
    and p: "case pending s of Some (Cooldown tr) \<Rightarrow> tr = transcript (call s) | _ \<Rightarrow> True"
    using assms(1) by (auto simp: bound_def)
  have "case pending s' of Some (Cooldown tr) \<Rightarrow> tr = transcript (call s') | _ \<Rightarrow> True"
    by (rule flushLive_cooldown [OF assms(2) p])
  then show ?thesis
    using flushLive_displayed [OF assms(2)] c d
    by (auto simp: bound_def split: option.splits Timeout.splits)
qed

lemma tick_displayed:
  "displayedMessages (tick k now stamp s) =
     (if committing s k
      then displayedMessages s @ [newMessage (currentMessage (typeTimers s ! k)) now stamp]
      else displayedMessages s)"
  by (simp add: tick_def committing_def Let_def)

lemma fireTimeout_displayed:
  "displayedMessages (fireTimeout s) =
     (case pending s of Some (Cooldown tr) \<Rightarrow> slice tr 0 (Some (- 1))
      | _ \<Rightarrow> displayedMessages s)"
  by (simp add: fireTimeout_def split: option.splits Timeout.splits)

lemma bound_tick: "bound c s \<Longrightarrow> bound c (tick k now stamp s)"
  by (auto simp: bound_def tick_def Let_def prefix_def)

lemma bound_fireTimeout: "bound c s \<Longrightarrow> bound c (fireTimeout s)"
  by (auto simp: bound_def fireTimeout_def slice_init split: option.splits Timeout.splits)

lemma bound_fire:
  assumes "bound c s" and "fire sc t s = Inr s'"
  shows "bound c s'"
proof (cases t)
  case FireTimeout
  then show ?thesis
    using assms bound_flushLive [OF bound_fireTimeout [OF assms(1)]] by simp
next
  case (Tick k now stamp)
  then show ?thesis
    using assms bound_flushLive [OF bound_tick [OF assms(1)]] by simp
qed

lemma bound_run:
  assumes "bound c s" and "run sc (map Fired ts) s = Inr s'"
  shows "bound c s'"
  using assms
proof (induction ts arbitrary: s)
  case Nil
  then show ?case by simp
next
  case (Cons t ts)
  obtain s1 where f: "fire sc t s = Inr s1" using fire_total by blast
  have "bound c s1" by (rule bound_fire [OF Cons.prems(1) f])
  moreover have "run sc (map Fired ts) s1 = Inr s'" using Cons.prems(2) f by simp
  ultimately show ?case by (rule Cons.IH)
qed

lemma bound_playing: "bound c (playing sc c 0 (butlast (transcript c)) r)"
  by (simp add: bound_def playing_def)

lemma fire_displayed:
  assumes "fire sc t s = Inr s'"
  shows "displayedMessages s' =
     (case t of
        Tick k now stamp \<Rightarrow>
          if committing s k
          then displayedMessages s @ [newMessage (currentMessage (typeTimers s ! k)) now stamp]
          else displayedMessages s
      | FireTimeout \<Rightarrow>
          (case pending s of Some (Cooldown tr) \<Rightarrow> slice tr 0 (Some (- 1))
           | _ \<Rightarrow> displayedMessages s))"
proof (cases t)
  case FireTimeout
  then show ?thesis
    using assms flushLive_displayed [of sc "fireTimeout s" s']
    by (simp add: fireTimeout_displayed)
next
  case (Tick k now stamp)
  then show ?thesis
    using assms flushLive_displayed [of sc "tick k now stamp s" s']
    by (simp add: tick_displayed)
qed

subsection \<open>Binding a call that is not in progress\<close>

lemma rebind_static:
  assumes "status c \<noteq> in_progress" and "quiet s"
  shows "rebind sc c s = Inr (still c (typingRole s) (messageIndex s) (currentTypingText s))"
  using assms
  by (auto simp: rebind_Inr flushLive_Inr initEffect_def settled_def deps_def scheduled_def
      still_def quiet_def)

lemma run_still: "run sc (map Fired ts) (still c r k buf) = Inr (still c r k buf)"
  by (rule run_idle) (simp_all add: still_def settled_def deps_def)

subsection \<open>States the component can reach\<close>

lemma sound_flushLive:
  assumes "isLiveDemo s \<or> pending s = None \<or> \<not> settled s"
    and "typeTimers s \<noteq> [] \<or> \<not> isTyping s"
  shows "\<exists>s'. flushLive sc s = Inr s' \<and> sound s'"
  using assms
  by (auto simp: flushLive_Inr sound_def settled_def deps_def scheduled_def)

lemma sound_fire:
  assumes "sound s"
  shows "\<exists>s'. fire sc t s = Inr s' \<and> sound s'"
proof (cases t)
  case FireTimeout
  have "isLiveDemo (fireTimeout s) \<or> pending (fireTimeout s) = None \<or> \<not> settled (fireTimeout s)"
    using assms by (auto simp: sound_def fireTimeout_def split: option.splits Timeout.splits)
  moreover have "typeTimers (fireTimeout s) \<noteq> [] \<or> \<not> isTyping (fireTimeout s)"
    using assms by (auto simp: sound_def fireTimeout_def split: option.splits Timeout.splits)
  ultimately show ?thesis using FireTimeout sound_flushLive by simp
next
  case (Tick k now stamp)
  have "isLiveDemo (tick k now stamp s) \<or> pending (tick k now stamp s) = None \<or>
      \<not> settled (tick k now stamp s)"
    using assms by (auto simp: sound_def tick_def Let_def)
  moreover have "typeTimers (tick k now stamp s) \<noteq> [] \<or> \<not> isTyping (tick k now stamp s)"
    using assms by (auto simp: sound_def tick_def Let_def)
  ultimately show ?thesis using Tick sound_flushLive by simp
qed

lemma sound_rebind:
  assumes "typeTimers s \<noteq> [] \<or> \<not> isTyping s"
    and "isLiveDemo s \<or> pending s = None \<or> \<not> settled (s\<lparr>call := c\<rparr>)"
  shows "\<exists>s'. rebind sc c s = Inr s' \<and> sound s'"
proof -
  obtain s1 where 1: "flushLive sc (s\<lparr>call := c\<rparr>) = Inr s1" and s1: "sound s1"
    using sound_flushLive [of "s\<lparr>call := c\<rparr>" sc] assms by auto
  have t1: "typeTimers s1 = typeTimers s \<and> isTyping s1 = isTyping s"
    using flushLive_displayed [OF 1] by simp
  have a: "isLiveDemo (initEffect s1) \<or> pending (initEffect s1) = None \<or>
      \<not> settled (initEffect s1)"
    using s1 by (auto simp: sound_def initEffect_def settled_def deps_def)
  have b: "typeTimers (initEffect s1) \<noteq> [] \<or> \<not> isTyping (initEffect s1)"
    using s1 by (auto simp: sound_def initEffect_def)
  show ?thesis
    using sound_flushLive [OF a b, of sc] 1 by (simp add: rebind_def)
qed

lemma sound_mount: "\<exists>s. mount sc c = Inr s \<and> sound s"
  unfolding mount_def by (rule sound_rebind) (simp_all add: initial_def settled_def)

lemma sound_step:
  assumes "sound s"
  shows "\<exists>s'. step sc e s = Inr s' \<and> sound s'"
proof (cases e)
  case (Rebind c)
  have "\<exists>s'. rebind sc c s = Inr s' \<and> sound s'"
    by (rule sound_rebind) (use assms in \<open>auto simp: sound_def\<close>)
  then show ?thesis using Rebind by simp
next
  case (Fired t)
  then show ?thesis using sound_fire [OF assms] by simp
qed

lemma sound_run:
  assumes "sound s"
  shows "\<exists>s'. run sc es s = Inr s' \<and> sound s'"
  using assms
proof (induction es arbitrary: s)
  case Nil
  then show ?case by simp
next
  case (Cons e es)
  obtain s1 where "step sc e s = Inr s1" and "sound s1"
    using sound_step [OF Cons.prems] by blast
  then show ?case using Cons.IH [of s1] by simp
qed

lemma sound_runFrom: "\<exists>s. runFrom sc c es = Inr s \<and> sound s"
proof -
  obtain s0 where "mount sc c = Inr s0" and "sound s0" using sound_mount by blast
  then show ?thesis using sound_run [of s0 sc es] by (simp add: runFrom_def)
qed

lemma quiet_sound: "sound s \<Longrightarrow> typeTimers s = [] \<Longrightarrow> quiet s"
  by (auto simp: sound_def quiet_def)

lemma rebind_static_sound:
  assumes "status c \<noteq> in_progress" and "sound s" and "typeTimers s = []"
  shows "\<exists>s1. rebind sc c s = Inr s1 \<and>
          displayedMessages s1 = transcript c \<and> \<not> isTyping s1 \<and> \<not> isLiveDemo s1 \<and>
          pending s1 = None \<and> typeTimers s1 = [] \<and>
          (\<forall>ts. run sc (map Fired ts) s1 = Inr s1)"
proof -
  have q: "quiet s" by (rule quiet_sound [OF assms(2,3)])
  have f: "displayedMessages (still c r k buf) = transcript c \<and> \<not> isTyping (still c r k buf) \<and>
      \<not> isLiveDemo (still c r k buf) \<and> pending (still c r k buf) = None \<and>
      typeTimers (still c r k buf) = []" for r k buf
    by (simp add: still_def)
  show ?thesis
    using rebind_static [OF assms(1) q, of sc] f run_still by blast
qed

lemma rebind_static_reachable:
  assumes "status c \<noteq> in_progress"
  shows "\<exists>s. runFrom sc c0 es = Inr s \<and>
       (typeTimers s = [] \<longrightarrow>
          (\<exists>s1. rebind sc c s = Inr s1 \<and>
             displayedMessages s1 = transcript c \<and> \<not> isTyping s1 \<and> \<not> isLiveDemo s1 \<and>
             pending s1 = None \<and> typeTimers s1 = [] \<and>
             (\<forall>ts. run sc (map Fired ts) s1 = Inr s1)))"
proof -
  obtain s where s: "runFrom sc c0 es = Inr s" and "sound s" using sound_runFrom by blast
  then have "typeTimers s = [] \<longrightarrow>
          (\<exists>s1. rebind sc c s = Inr s1 \<and>
             displayedMessages s1 = transcript c \<and> \<not> isTyping s1 \<and> \<not> isLiveDemo s1 \<and>
             pending s1 = None \<and> typeTimers s1 = [] \<and>
             (\<forall>ts. run sc (map Fired ts) s1 = Inr s1))"
    using rebind_static_sound [OF assms, of s sc] by blast
  then show ?thesis using s by blast
qed

lemma first_render_static:
  "flushLive sc ((initial c)\<lparr>call := c\<rparr>) =
     Inr ((initial c)\<lparr>liveDeps := Some (False, 0, transcriptRef c)\<rparr>)"
  by (simp add: flushLive_Inr initial_def settled_def deps_def scheduled_def)

section \<open>Claims\<close>

subsection \<open>The loop\<close>

text \<open>
  C2, as the code has it. A live binding types every message of \<open>allMessages\<close>: the
  continuation and, before it, the last message of the transcript when there is one.
  So the loop reset comes after \<open>length sc + 1\<close> commits for a call with a transcript,
  and after \<open>length sc\<close> commits for one without. The reset puts
  \<open>call.transcript.slice(0, -1)\<close> back on display and the index back to 0, which is the
  state the binding began with, but for the role last typed.
\<close>

theorem loop_restores_bound_state:
  assumes "status c = in_progress" and "allMessages sc (transcript c) \<noteq> []"
  shows "length (allMessages sc (transcript c)) =
           length sc + (if transcript c = [] then 0 else 1) \<and>
    (\<exists>s0 s1 s2.
       mount sc c = Inr s0 \<and>
       run sc (map Fired (playback (allMessages sc (transcript c)) clk
                 (length (allMessages sc (transcript c))))) s0 = Inr s1 \<and>
       fire sc FireTimeout s1 = Inr s2 \<and>
       displayedMessages s1 =
         displayedMessages s0 @ committed (allMessages sc (transcript c)) clk
                 (length (allMessages sc (transcript c))) \<and>
       messageIndex s1 = length (allMessages sc (transcript c)) \<and>
       pending s1 = Some (Cooldown (transcript c)) \<and>
       displayedMessages s2 = slice (transcript c) 0 (Some (- 1)) \<and>
       displayedMessages s2 = displayedMessages s0 \<and>
       messageIndex s2 = 0 \<and>
       s2 = s0\<lparr>typingRole := role (last (allMessages sc (transcript c)))\<rparr>)"
proof -
  let ?ms = "allMessages sc (transcript c)"
  let ?s0 = "playing sc c 0 (butlast (transcript c)) ai"
  let ?s1 = "playing sc c (length ?ms) (butlast (transcript c) @ committed ?ms clk (length ?ms))
               (lastRole ?ms (length ?ms) ai)"
  let ?s2 = "playing sc c 0 (butlast (transcript c)) (lastRole ?ms (length ?ms) ai)"
  have n: "0 < length ?ms" using assms(2) by simp
  have r: "lastRole ?ms (length ?ms) ai = role (last ?ms)"
    using assms(2) by (simp add: lastRole_def last_conv_nth)
  have 0: "mount sc c = Inr ?s0" by (rule mount_live [OF assms(1)])
  have 1: "run sc (map Fired (playback ?ms clk (length ?ms))) ?s0 = Inr ?s1"
    by (rule playback_playing) simp
  have 2: "fire sc FireTimeout ?s1 = Inr ?s2"
    by (rule cooldown_playing [OF order_refl n])
  have 3: "displayedMessages ?s1 = displayedMessages ?s0 @ committed ?ms clk (length ?ms)"
    by (simp add: playing_def)
  have 4: "messageIndex ?s1 = length ?ms \<and> pending ?s1 = Some (Cooldown (transcript c))"
    by (simp add: playing_def)
  have 5: "displayedMessages ?s2 = slice (transcript c) 0 (Some (- 1)) \<and>
           displayedMessages ?s2 = displayedMessages ?s0 \<and> messageIndex ?s2 = 0"
    by (simp add: playing_def slice_init)
  have 6: "?s2 = ?s0\<lparr>typingRole := role (last ?ms)\<rparr>"
    by (simp add: playing_def r)
  show ?thesis
    using 0 1 2 3 4 5 6 length_allMessages by blast
qed

text \<open>C2: the theorem at a call with one message and the continuation of the source.\<close>

theorem loop_restores_bound_state_witness:
  "length (allMessages simulatedContinuation (transcript liveCall)) = 13 \<and>
   (\<exists>s0 s1 s2.
       mount simulatedContinuation liveCall = Inr s0 \<and>
       run simulatedContinuation
         (map Fired (playback (allMessages simulatedContinuation (transcript liveCall))
                 (\<lambda>i. (int i, [])) 13)) s0 = Inr s1 \<and>
       fire simulatedContinuation FireTimeout s1 = Inr s2 \<and>
       messageIndex s1 = 13 \<and>
       displayedMessages s2 = [] \<and>
       messageIndex s2 = 0)"
proof -
  have a: "status liveCall = in_progress" by (simp add: liveCall_def)
  have l: "length (allMessages simulatedContinuation (transcript liveCall)) = 13"
    by (simp add: length_allMessages length_simulatedContinuation liveCall_def)
  have b: "allMessages simulatedContinuation (transcript liveCall) \<noteq> []"
    using l by auto
  have d: "slice (transcript liveCall) 0 (Some (- 1)) = []"
    by (simp add: liveCall_def slice_def)
  show ?thesis
    using loop_restores_bound_state [OF a b, of "\<lambda>i. (int i, [])"] l d
    by (simp only:) metis
qed

text \<open>
  C2 as stated fails: with the 12 messages of the continuation and a transcript of one
  message, the timeout pending after 12 commits is the pause before the 13th message,
  not the loop reset. When it fires the index stays 12, typing starts, and the 12
  committed messages stay on display, where the binding began with none.
\<close>

theorem loop_after_N_commits_counterexample:
  "length simulatedContinuation = 12 \<and>
   observe pending (runFrom simulatedContinuation liveCall
      (map Fired (playback (allMessages simulatedContinuation (transcript liveCall))
                 (\<lambda>i. (0, [])) 12))) =
     Some (Some (Pause (simulatedContinuation ! 11))) \<and>
   observe messageIndex (runFrom simulatedContinuation liveCall
      (map Fired (playback (allMessages simulatedContinuation (transcript liveCall))
                 (\<lambda>i. (0, [])) 12 @ [FireTimeout]))) = Some 12 \<and>
   observe isTyping (runFrom simulatedContinuation liveCall
      (map Fired (playback (allMessages simulatedContinuation (transcript liveCall))
                 (\<lambda>i. (0, [])) 12 @ [FireTimeout]))) = Some True \<and>
   observe (\<lambda>s. length (displayedMessages s)) (runFrom simulatedContinuation liveCall
      (map Fired (playback (allMessages simulatedContinuation (transcript liveCall))
                 (\<lambda>i. (0, [])) 12 @ [FireTimeout]))) = Some 12 \<and>
   observe (\<lambda>s. length (displayedMessages s)) (mount simulatedContinuation liveCall) = Some 0"
proof -
  let ?sc = simulatedContinuation
  let ?ms = "allMessages ?sc (transcript liveCall)"
  let ?clk = "\<lambda>i::nat. (0::int, []::jsstring)"
  let ?s1 = "playing ?sc liveCall 12 (butlast (transcript liveCall) @ committed ?ms ?clk 12)
               (lastRole ?ms 12 ai)"
  have a: "status liveCall = in_progress" by (simp add: liveCall_def)
  have l: "length ?ms = 13"
    by (simp add: length_allMessages length_simulatedContinuation liveCall_def)
  have nth: "?ms ! 12 = ?sc ! 11"
    by (simp add: allMessages_eq liveCall_def)
  have 1: "run ?sc (map Fired (playback ?ms ?clk 12)) (playing ?sc liveCall 0 (butlast (transcript liveCall)) ai)
             = Inr ?s1"
    by (rule playback_playing) (simp add: l)
  have p: "pending ?s1 = Some (Pause (?sc ! 11))"
    by (simp add: playing_def l nth)
  have 2: "fire ?sc FireTimeout ?s1 =
     Inr (?s1\<lparr>pending := None, typingRole := role (?sc ! 11), isTyping := True,
            currentTypingText := [],
            typeTimers := typeTimers ?s1 @ [\<lparr>currentMessage = ?sc ! 11, charIndex = 0\<rparr>]\<rparr>)"
    by (rule fire_pause [OF settled_playing p])
  have d: "length (displayedMessages ?s1) = 12"
    by (simp add: playing_def committed_def liveCall_def)
  have m: "messageIndex ?s1 = 12" by (simp add: playing_def)
  have 0: "observe (\<lambda>s. length (displayedMessages s)) (mount ?sc liveCall) = Some 0"
    unfolding mount_live [OF a] by (simp add: observe_def playing_def liveCall_def)
  let ?s2 = "?s1\<lparr>pending := None, typingRole := role (?sc ! 11), isTyping := True,
            currentTypingText := [],
            typeTimers := typeTimers ?s1 @ [\<lparr>currentMessage = ?sc ! 11, charIndex = 0\<rparr>]\<rparr>"
  have r1: "runFrom ?sc liveCall (map Fired (playback ?ms ?clk 12)) = Inr ?s1"
    using 1 by (simp only: runFrom_live [OF a])
  have r2: "runFrom ?sc liveCall (map Fired (playback ?ms ?clk 12 @ [FireTimeout])) = Inr ?s2"
    using 1 2 by (simp add: runFrom_live [OF a] run_append del: fire.simps)
  have o1: "observe pending (Inr ?s1) = Some (Some (Pause (?sc ! 11)))"
    using p by (simp add: observe_def)
  have o2: "observe messageIndex (Inr ?s2) = Some 12"
    using m by (simp add: observe_def)
  have o3: "observe isTyping (Inr ?s2) = Some True"
    by (simp add: observe_def)
  have o4: "observe (\<lambda>s. length (displayedMessages s)) (Inr ?s2) = Some 12"
    using d by (simp add: observe_def)
  show ?thesis
    unfolding r1 r2 using 0 o1 o2 o3 o4 length_simulatedContinuation by blast
qed

subsection \<open>The last message of the transcript is typed, not shown\<close>

text \<open>
  C10. A call in progress with a transcript is bound with all but its last message on
  display; the last message is the first of \<open>allMessages\<close>. After any number of whole
  cycles the display is again the transcript without its last message, the pending
  timer is the pause before that last message, and typing it out appends it, with its
  new id and timestamp, as the first commit of the cycle.
\<close>

theorem last_message_typed_first:
  assumes "status c = in_progress" and "transcript c \<noteq> []"
  shows "allMessages sc (transcript c) = last (transcript c) # sc \<and>
    (\<exists>s0. mount sc c = Inr s0 \<and>
       displayedMessages s0 = slice (transcript c) 0 (Some (- 1)) \<and>
       displayedMessages s0 = butlast (transcript c) \<and>
       \<not> isTyping s0 \<and> typeTimers s0 = [] \<and>
       pending s0 = Some (Pause (last (transcript c)))) \<and>
    (\<exists>s1 s2.
       runFrom sc c (map Fired (cycles (allMessages sc (transcript c)) clks n)) = Inr s1 \<and>
       displayedMessages s1 = butlast (transcript c) \<and>
       messageIndex s1 = 0 \<and>
       pending s1 = Some (Pause (last (transcript c))) \<and>
       run sc (map Fired (typeOut (last (transcript c)) now stamp)) s1 = Inr s2 \<and>
       displayedMessages s2 =
         butlast (transcript c) @ [newMessage (last (transcript c)) now stamp] \<and>
       messageIndex s2 = 1)"
proof -
  let ?ms = "allMessages sc (transcript c)"
  let ?r = "if n = 0 then ai else role (last ?ms)"
  let ?s0 = "playing sc c 0 (butlast (transcript c)) ai"
  let ?s1 = "playing sc c 0 (butlast (transcript c)) ?r"
  let ?s2 = "playing sc c (Suc 0) (butlast (transcript c) @ [newMessage (?ms ! 0) now stamp])
               (role (?ms ! 0))"
  have ms: "?ms = last (transcript c) # sc"
    using assms(2) by (simp add: allMessages_eq)
  have ne: "?ms \<noteq> []" using ms by simp
  have hd: "?ms ! 0 = last (transcript c)" using ms by simp
  have 0: "mount sc c = Inr ?s0" by (rule mount_live [OF assms(1)])
  have p: "pending (playing sc c 0 (butlast (transcript c)) r) =
             Some (Pause (last (transcript c)))" for r
    using ms by (simp add: playing_def)
  have f0: "displayedMessages ?s0 = slice (transcript c) 0 (Some (- 1)) \<and>
      displayedMessages ?s0 = butlast (transcript c) \<and> \<not> isTyping ?s0 \<and> typeTimers ?s0 = []"
    by (simp add: playing_def slice_init)
  have 1: "runFrom sc c (map Fired (cycles ?ms clks n)) = Inr ?s1"
    using runFrom_cycles [OF assms(1) ne, of clks n "[]"] by simp
  have f1: "displayedMessages ?s1 = butlast (transcript c) \<and> messageIndex ?s1 = 0"
    by (simp add: playing_def)
  have k: "0 < length ?ms" using ne by simp
  have 2: "run sc (map Fired (typeOut (last (transcript c)) now stamp)) ?s1 = Inr ?s2"
    using typeOut_playing [OF k, of now stamp "butlast (transcript c)" ?r] by (simp only: hd)
  have f2: "displayedMessages ?s2 =
      butlast (transcript c) @ [newMessage (last (transcript c)) now stamp] \<and>
      messageIndex ?s2 = 1"
    by (simp add: playing_def hd)
  show ?thesis
    using ms 0 p f0 1 f1 2 f2 by blast
qed

text \<open>C10: the theorem at the call with one message, after two cycles.\<close>

theorem last_message_typed_first_witness:
  "status liveCall = in_progress \<and> transcript liveCall \<noteq> [] \<and>
   allMessages simulatedContinuation (transcript liveCall) = greeting # simulatedContinuation \<and>
   (\<exists>s1 s2.
       runFrom simulatedContinuation liveCall
         (map Fired (cycles (allMessages simulatedContinuation (transcript liveCall))
            (\<lambda>j i. (0, [])) 2)) = Inr s1 \<and>
       displayedMessages s1 = [] \<and>
       pending s1 = Some (Pause greeting) \<and>
       run simulatedContinuation (map Fired (typeOut greeting 7 (js ''now''))) s1 = Inr s2 \<and>
       displayedMessages s2 = [newMessage greeting 7 (js ''now'')])"
proof -
  have a: "status liveCall = in_progress" by (simp add: liveCall_def)
  have b: "transcript liveCall \<noteq> []" by (simp add: liveCall_def)
  have l: "last (transcript liveCall) = greeting" by (simp add: liveCall_def)
  have bl: "butlast (transcript liveCall) = []" by (simp add: liveCall_def)
  note t = last_message_typed_first [OF a b, of simulatedContinuation "\<lambda>j i. (0, [])" 2 7
      "js ''now''", unfolded l bl append_Nil]
  from t have ms: "allMessages simulatedContinuation (transcript liveCall) =
      greeting # simulatedContinuation"
    by (rule conjunct1)
  from t obtain s1 s2 where
    "runFrom simulatedContinuation liveCall
       (map Fired (cycles (allMessages simulatedContinuation (transcript liveCall))
          (\<lambda>j i. (0, [])) 2)) = Inr s1"
    "displayedMessages s1 = []" "pending s1 = Some (Pause greeting)"
    "run simulatedContinuation (map Fired (typeOut greeting 7 (js ''now''))) s1 = Inr s2"
    "displayedMessages s2 = [newMessage greeting 7 (js ''now'')]"
    by blast
  then show ?thesis using a b ms by blast
qed

subsection \<open>The scenario with seed A and continuation Q1, A1\<close>

text \<open>
  C3, as the code has it. In the scenario every cycle starts with nothing on display,
  since A is the last message of the transcript and is held back. The commits of a
  cycle are A, Q1, A1, in this order, each with its new id and timestamp; after the
  third the pending timer is the loop reset, which empties the display and puts the
  index back to 0. The state after any number of cycles is the state of the binding,
  so the sequence repeats with three commits per cycle.
\<close>

theorem scenario_commits_three_per_cycle:
  "allMessages scenarioScript (transcript scenarioCall) = [scenarioA, scenarioQ1, scenarioA1] \<and>
   mount scenarioScript scenarioCall = Inr (playing scenarioScript scenarioCall 0 [] ai) \<and>
   runFrom scenarioScript scenarioCall
     (map Fired (cycles [scenarioA, scenarioQ1, scenarioA1] clks n)) =
       Inr (playing scenarioScript scenarioCall 0 [] ai) \<and>
   observe displayedMessages (runFrom scenarioScript scenarioCall
     (map Fired (cycles [scenarioA, scenarioQ1, scenarioA1] clks n @
                 playback [scenarioA, scenarioQ1, scenarioA1] clk 1))) =
       Some [newMessage scenarioA (fst (clk 0)) (snd (clk 0))] \<and>
   observe displayedMessages (runFrom scenarioScript scenarioCall
     (map Fired (cycles [scenarioA, scenarioQ1, scenarioA1] clks n @
                 playback [scenarioA, scenarioQ1, scenarioA1] clk 2))) =
       Some [newMessage scenarioA (fst (clk 0)) (snd (clk 0)),
             newMessage scenarioQ1 (fst (clk 1)) (snd (clk 1))] \<and>
   observe displayedMessages (runFrom scenarioScript scenarioCall
     (map Fired (cycles [scenarioA, scenarioQ1, scenarioA1] clks n @
                 playback [scenarioA, scenarioQ1, scenarioA1] clk 3))) =
       Some [newMessage scenarioA (fst (clk 0)) (snd (clk 0)),
             newMessage scenarioQ1 (fst (clk 1)) (snd (clk 1)),
             newMessage scenarioA1 (fst (clk 2)) (snd (clk 2))] \<and>
   observe pending (runFrom scenarioScript scenarioCall
     (map Fired (cycles [scenarioA, scenarioQ1, scenarioA1] clks n @
                 playback [scenarioA, scenarioQ1, scenarioA1] clk 3))) =
       Some (Some (Cooldown [scenarioA])) \<and>
   observe displayedMessages (runFrom scenarioScript scenarioCall
     (map Fired (cycles [scenarioA, scenarioQ1, scenarioA1] clks n @
                 playback [scenarioA, scenarioQ1, scenarioA1] clk 3 @ [FireTimeout]))) =
       Some [] \<and>
   observe messageIndex (runFrom scenarioScript scenarioCall
     (map Fired (cycles [scenarioA, scenarioQ1, scenarioA1] clks n @
                 playback [scenarioA, scenarioQ1, scenarioA1] clk 3 @ [FireTimeout]))) =
       Some 0"
proof -
  let ?ms = "[scenarioA, scenarioQ1, scenarioA1]"
  have le: "(1::nat) \<le> 3" "(2::nat) \<le> 3" "(3::nat) \<le> 3" by simp_all
  have m: "mount scenarioScript scenarioCall = Inr (playing scenarioScript scenarioCall 0 [] ai)"
    using mount_live [OF scenario_live, of scenarioScript] by (simp only: scenario_shown)
  have c0: "runFrom scenarioScript scenarioCall (map Fired (cycles ?ms clks n)) =
       Inr (playing scenarioScript scenarioCall 0 [] ai)"
    using scenario_run [of 0 clks n clk]
    by (simp add: playback_def committed_def lastRole_def)
  have r: "runFrom scenarioScript scenarioCall
       (map Fired (cycles ?ms clks n @ playback ?ms clk k)) =
     Inr (playing scenarioScript scenarioCall k (committed ?ms clk k) (lastRole ?ms k ai))"
    if "k \<le> 3" for k
    by (rule scenario_run [OF that])
  have 1: "observe displayedMessages (runFrom scenarioScript scenarioCall
       (map Fired (cycles ?ms clks n @ playback ?ms clk 1))) =
       Some [newMessage scenarioA (fst (clk 0)) (snd (clk 0))]"
    unfolding r [OF le(1)] observe_Inr committed_upto by (simp add: playing_def)
  have 2: "observe displayedMessages (runFrom scenarioScript scenarioCall
       (map Fired (cycles ?ms clks n @ playback ?ms clk 2))) =
       Some [newMessage scenarioA (fst (clk 0)) (snd (clk 0)),
             newMessage scenarioQ1 (fst (clk 1)) (snd (clk 1))]"
    unfolding r [OF le(2)] observe_Inr committed_upto by (simp add: playing_def)
  have 3: "observe displayedMessages (runFrom scenarioScript scenarioCall
       (map Fired (cycles ?ms clks n @ playback ?ms clk 3))) =
       Some [newMessage scenarioA (fst (clk 0)) (snd (clk 0)),
             newMessage scenarioQ1 (fst (clk 1)) (snd (clk 1)),
             newMessage scenarioA1 (fst (clk 2)) (snd (clk 2))]"
    unfolding r [OF le(3)] observe_Inr committed_upto by (simp add: playing_def)
  have 4: "observe pending (runFrom scenarioScript scenarioCall
       (map Fired (cycles ?ms clks n @ playback ?ms clk 3))) = Some (Some (Cooldown [scenarioA]))"
    unfolding r [OF le(3)] observe_Inr
    by (simp add: playing_def allMessages_eq scenarioCall_def scenarioScript_def)
  have 5: "runFrom scenarioScript scenarioCall
       (map Fired (cycles ?ms clks n @ playback ?ms clk 3 @ [FireTimeout])) =
       Inr (playing scenarioScript scenarioCall 0 [] ai)"
    by (rule scenario_reset)
  show ?thesis
    unfolding 5 c0 using scenario_all m 1 2 3 4 by (simp add: observe_Inr playing_def)
qed

text \<open>
  C3 as stated fails in the scenario: the first message committed is A, not Q1; the
  timer pending after two commits is the pause before A1, not the loop reset; a cycle
  commits three messages; and the reset leaves nothing on display, not A.
\<close>

theorem scenario_first_commit_counterexample:
  "observe (\<lambda>s. map content (displayedMessages s)) (runFrom scenarioScript scenarioCall
     (map Fired (typeOut scenarioA 0 []))) = Some [js ''A''] \<and>
   content scenarioQ1 = js ''Q1'' \<and> js ''A'' \<noteq> js ''Q1'' \<and>
   observe pending (runFrom scenarioScript scenarioCall
     (map Fired (playback [scenarioA, scenarioQ1, scenarioA1] (\<lambda>i. (0, [])) 2))) =
       Some (Some (Pause scenarioA1)) \<and>
   observe (\<lambda>s. length (displayedMessages s)) (runFrom scenarioScript scenarioCall
     (map Fired (playback [scenarioA, scenarioQ1, scenarioA1] (\<lambda>i. (0, [])) 3))) = Some 3 \<and>
   observe displayedMessages (runFrom scenarioScript scenarioCall
     (map Fired (playback [scenarioA, scenarioQ1, scenarioA1] (\<lambda>i. (0, [])) 3 @ [FireTimeout])))
     = Some [] \<and>
   observe displayedMessages (mount scenarioScript scenarioCall) = Some []"
proof -
  let ?ms = "[scenarioA, scenarioQ1, scenarioA1]"
  let ?clk = "\<lambda>i::nat. (0::int, []::jsstring)"
  have le: "(1::nat) \<le> 3" "(2::nat) \<le> 3" "(3::nat) \<le> 3" by simp_all
  have r: "runFrom scenarioScript scenarioCall (map Fired (playback ?ms ?clk k)) =
     Inr (playing scenarioScript scenarioCall k (committed ?ms ?clk k) (lastRole ?ms k ai))"
    if "k \<le> 3" for k
    using scenario_run [OF that, of "\<lambda>j. ?clk" 0 ?clk] by (simp add: cycles_def)
  have t: "typeOut scenarioA 0 [] = playback ?ms ?clk 1"
    by (simp add: playback_def)
  have 1: "observe (\<lambda>s. map content (displayedMessages s)) (runFrom scenarioScript scenarioCall
     (map Fired (typeOut scenarioA 0 []))) = Some [js ''A'']"
    unfolding t r [OF le(1)] observe_Inr committed_upto
    by (simp add: playing_def newMessage_def scenarioA_def)
  have 2: "observe pending (runFrom scenarioScript scenarioCall
     (map Fired (playback ?ms ?clk 2))) = Some (Some (Pause scenarioA1))"
    unfolding r [OF le(2)] observe_Inr by (simp add: playing_def scenario_all)
  have 3: "observe (\<lambda>s. length (displayedMessages s)) (runFrom scenarioScript scenarioCall
     (map Fired (playback ?ms ?clk 3))) = Some 3"
    unfolding r [OF le(3)] observe_Inr committed_upto by (simp add: playing_def)
  have 4: "observe displayedMessages (runFrom scenarioScript scenarioCall
     (map Fired (playback ?ms ?clk 3 @ [FireTimeout]))) = Some []"
    using scenario_reset [of "\<lambda>j. ?clk" 0 ?clk]
    by (simp add: cycles_def observe_Inr playing_def)
  have 5: "observe displayedMessages (mount scenarioScript scenarioCall) = Some []"
    using mount_live [OF scenario_live, of scenarioScript]
    by (simp add: scenario_shown observe_Inr playing_def)
  have 6: "content scenarioQ1 = js ''Q1'' \<and> js ''A'' \<noteq> js ''Q1''"
    by (simp add: scenarioQ1_def js_def)
  show ?thesis using 1 2 3 4 5 6 by blast
qed

subsection \<open>A call in progress with an empty transcript\<close>

text \<open>
  C9. A call in progress with an empty transcript is bound without error to a live
  playback of the continuation alone: nothing is displayed, \<open>allMessages\<close> is the
  continuation, and its first \<open>k\<close> messages are typed and committed in order. No run
  of the component, whatever the events, raises.
\<close>

theorem empty_transcript_plays_continuation:
  assumes "status c = in_progress" and "transcript c = []"
  shows "allMessages sc (transcript c) = sc \<and>
    mount sc c = Inr (playing sc c 0 [] ai) \<and>
    (\<forall>es. \<exists>s. runFrom sc c es = Inr s) \<and>
    (\<forall>k\<le>length sc. \<exists>s.
       runFrom sc c (map Fired (playback sc clk k)) = Inr s \<and>
       displayedMessages s = committed sc clk k \<and>
       messageIndex s = k \<and> \<not> isTyping s \<and> typeTimers s = [] \<and>
       pending s = (if k < length sc then Some (Pause (sc ! k)) else Some (Cooldown [])))"
proof -
  have ms: "allMessages sc (transcript c) = sc"
    using assms(2) by (simp add: allMessages_eq)
  have bl: "butlast (transcript c) = []" using assms(2) by simp
  have 0: "mount sc c = Inr (playing sc c 0 [] ai)"
    using mount_live [OF assms(1), of sc] by (simp only: bl)
  have 1: "\<forall>es. \<exists>s. runFrom sc c es = Inr s"
    using runFrom_total by blast
  have 2: "\<exists>s. runFrom sc c (map Fired (playback sc clk k)) = Inr s \<and>
       displayedMessages s = committed sc clk k \<and>
       messageIndex s = k \<and> \<not> isTyping s \<and> typeTimers s = [] \<and>
       pending s = (if k < length sc then Some (Pause (sc ! k)) else Some (Cooldown []))"
    if "k \<le> length sc" for k
  proof -
    have k: "k \<le> length (allMessages sc (transcript c))" using that ms by simp
    have "runFrom sc c (map Fired (playback sc clk k)) =
       Inr (playing sc c k (committed sc clk k) (lastRole sc k ai))"
      using playback_playing [OF k, of clk "[]" ai]
      by (simp add: runFrom_def 0 ms)
    then show ?thesis
      using that assms(2) by (auto simp: playing_def allMessages_eq)
  qed
  show ?thesis using ms 0 1 2 by blast
qed

text \<open>C9: the theorem at a call with no transcript and the continuation of the source.\<close>

theorem empty_transcript_plays_continuation_witness:
  "status silentCall = in_progress \<and> transcript silentCall = [] \<and>
   mount simulatedContinuation silentCall = Inr (playing simulatedContinuation silentCall 0 [] ai) \<and>
   (\<exists>s. runFrom simulatedContinuation silentCall
           (map Fired (playback simulatedContinuation (\<lambda>i. (0, [])) 12)) = Inr s \<and>
        displayedMessages s = committed simulatedContinuation (\<lambda>i. (0, [])) 12 \<and>
        messageIndex s = 12 \<and> pending s = Some (Cooldown []))"
proof -
  have a: "status silentCall = in_progress" by (simp add: silentCall_def)
  have b: "transcript silentCall = []" by (simp add: silentCall_def)
  note t = empty_transcript_plays_continuation [OF a b, of simulatedContinuation "\<lambda>i. (0, [])"]
  from t have m: "mount simulatedContinuation silentCall =
      Inr (playing simulatedContinuation silentCall 0 [] ai)" by blast
  from t have "\<forall>k\<le>length simulatedContinuation. \<exists>s.
       runFrom simulatedContinuation silentCall
         (map Fired (playback simulatedContinuation (\<lambda>i. (0, [])) k)) = Inr s \<and>
       displayedMessages s = committed simulatedContinuation (\<lambda>i. (0, [])) k \<and>
       messageIndex s = k \<and> \<not> isTyping s \<and> typeTimers s = [] \<and>
       pending s = (if k < length simulatedContinuation
                    then Some (Pause (simulatedContinuation ! k)) else Some (Cooldown []))"
    by blast
  then have "\<exists>s.
       runFrom simulatedContinuation silentCall
         (map Fired (playback simulatedContinuation (\<lambda>i. (0, [])) 12)) = Inr s \<and>
       displayedMessages s = committed simulatedContinuation (\<lambda>i. (0, [])) 12 \<and>
       messageIndex s = 12 \<and> \<not> isTyping s \<and> typeTimers s = [] \<and>
       pending s = (if 12 < length simulatedContinuation
                    then Some (Pause (simulatedContinuation ! 12)) else Some (Cooldown []))"
    by (simp only: length_simulatedContinuation order_refl simp_thms)
  then show ?thesis
    using a b m by (auto simp: length_simulatedContinuation)
qed

subsection \<open>The typewriter\<close>

text \<open>
  C4. When the pause before a message \<open>m\<close> fires and no other interval runs, the
  interval reveals \<open>m\<close> one code unit per tick: after \<open>t\<close> ticks, for every \<open>t\<close> up to
  the length of the content, the typing text is the prefix of length \<open>t\<close>, so each tick
  extends the text of the tick before by one code unit, the text after as many ticks
  as the content is long is the content, and it is never longer. The next tick is the
  last: it clears the interval and the text, appends one message and advances the
  index by one, and after it a tick of any interval changes nothing, so the sequence
  has ended and does not start again.
\<close>

theorem typewriter_reveals_prefixes:
  assumes "settled s" and "pending s = Some (Pause m)" and "typeTimers s = []"
  shows
   "(\<forall>cs. length cs \<le> length (content m) \<longrightarrow>
       (\<exists>s'. run sc (map Fired (FireTimeout # ticks cs)) s = Inr s' \<and>
          currentTypingText s' = take (length cs) (content m) \<and>
          prefix (currentTypingText s') (content m) \<and>
          isTyping s' \<and> typingRole s' = role m \<and>
          typeTimers s' = [\<lparr>currentMessage = m, charIndex = length cs\<rparr>] \<and>
          displayedMessages s' = displayedMessages s \<and>
          messageIndex s' = messageIndex s)) \<and>
    (\<forall>cs now stamp. length cs < length (content m) \<longrightarrow>
       (\<exists>s' s''. run sc (map Fired (FireTimeout # ticks cs)) s = Inr s' \<and>
          fire sc (Tick 0 now stamp) s' = Inr s'' \<and>
          currentTypingText s'' = currentTypingText s' @ [content m ! length cs] \<and>
          prefix (currentTypingText s') (currentTypingText s''))) \<and>
    (\<forall>cs. length cs = length (content m) \<longrightarrow>
       (\<exists>s'. run sc (map Fired (FireTimeout # ticks cs)) s = Inr s' \<and>
          currentTypingText s' = content m)) \<and>
    (\<forall>cs now stamp. length cs = length (content m) \<longrightarrow>
       (\<exists>s'. run sc (map Fired (FireTimeout # ticks cs @ [Tick 0 now stamp])) s = Inr s' \<and>
          typeTimers s' = [] \<and> \<not> isTyping s' \<and> currentTypingText s' = [] \<and>
          displayedMessages s' = displayedMessages s @ [newMessage m now stamp] \<and>
          messageIndex s' = Suc (messageIndex s) \<and>
          (\<forall>k now' stamp'. \<exists>s''. fire sc (Tick k now' stamp') s' = Inr s'' \<and>
             typeTimers s'' = [] \<and> \<not> isTyping s'' \<and> currentTypingText s'' = [] \<and>
             displayedMessages s'' = displayedMessages s' \<and>
             messageIndex s'' = messageIndex s')))"
proof -
  have A: "\<exists>s'. run sc (map Fired (FireTimeout # ticks cs)) s = Inr s' \<and>
          currentTypingText s' = take (length cs) (content m) \<and>
          prefix (currentTypingText s') (content m) \<and>
          isTyping s' \<and> typingRole s' = role m \<and>
          typeTimers s' = [\<lparr>currentMessage = m, charIndex = length cs\<rparr>] \<and>
          displayedMessages s' = displayedMessages s \<and>
          messageIndex s' = messageIndex s"
    if "length cs \<le> length (content m)" for cs
    using typing_run [OF assms that, of sc] by (simp add: take_is_prefix)
  have B: "\<exists>s' s''. run sc (map Fired (FireTimeout # ticks cs)) s = Inr s' \<and>
          fire sc (Tick 0 now stamp) s' = Inr s'' \<and>
          currentTypingText s'' = currentTypingText s' @ [content m ! length cs] \<and>
          prefix (currentTypingText s') (currentTypingText s'')"
    if "length cs < length (content m)" for cs now stamp
  proof -
    let ?s' = "s\<lparr>pending := None, typingRole := role m, isTyping := True,
            currentTypingText := take (length cs) (content m),
            typeTimers := [\<lparr>currentMessage = m, charIndex = length cs\<rparr>]\<rparr>"
    have le: "length cs \<le> length (content m)" using that by simp
    have 1: "run sc (map Fired (FireTimeout # ticks cs)) s = Inr ?s'"
      by (rule typing_run [OF assms le])
    have st: "settled ?s'" using assms(1) by (simp add: settled_def deps_def)
    have tt: "typeTimers ?s' = [\<lparr>currentMessage = m, charIndex = length cs\<rparr>]" by simp
    have 2: "fire sc (Tick 0 now stamp) ?s' =
       Inr (?s'\<lparr>currentTypingText := take (Suc (length cs)) (content m),
            typeTimers := [\<lparr>currentMessage = m, charIndex = Suc (length cs)\<rparr>]\<rparr>)"
      by (rule fire_reveal [OF st tt that])
    show ?thesis
      using 1 2 that by (simp add: take_Suc_conv_app_nth del: fire.simps)
  qed
  have C: "\<exists>s'. run sc (map Fired (FireTimeout # ticks cs)) s = Inr s' \<and>
          currentTypingText s' = content m"
    if "length cs = length (content m)" for cs
    using typing_run [OF assms, of cs sc] that by simp
  have D: "\<exists>s'. run sc (map Fired (FireTimeout # ticks cs @ [Tick 0 now stamp])) s = Inr s' \<and>
          typeTimers s' = [] \<and> \<not> isTyping s' \<and> currentTypingText s' = [] \<and>
          displayedMessages s' = displayedMessages s @ [newMessage m now stamp] \<and>
          messageIndex s' = Suc (messageIndex s) \<and>
          (\<forall>k now' stamp'. \<exists>s''. fire sc (Tick k now' stamp') s' = Inr s'' \<and>
             typeTimers s'' = [] \<and> \<not> isTyping s'' \<and> currentTypingText s'' = [] \<and>
             displayedMessages s'' = displayedMessages s' \<and>
             messageIndex s'' = messageIndex s')"
    if len: "length cs = length (content m)" for cs now stamp
  proof -
    obtain p where r: "run sc (map Fired (FireTimeout # ticks cs @ [Tick 0 now stamp])) s =
       Inr (s\<lparr>pending := p, typingRole := role m, isTyping := False,
            currentTypingText := [], typeTimers := [],
            displayedMessages := displayedMessages s @ [newMessage m now stamp],
            messageIndex := Suc (messageIndex s),
            liveDeps := Some (isLiveDemo s, Suc (messageIndex s), transcriptRef (call s))\<rparr>)"
      using commit_run [OF assms len] by blast
    let ?s' = "s\<lparr>pending := p, typingRole := role m, isTyping := False,
            currentTypingText := [], typeTimers := [],
            displayedMessages := displayedMessages s @ [newMessage m now stamp],
            messageIndex := Suc (messageIndex s),
            liveDeps := Some (isLiveDemo s, Suc (messageIndex s), transcriptRef (call s))\<rparr>"
    have st: "settled ?s'" by (simp add: settled_def deps_def)
    have "fire sc (Tick k now' stamp') ?s' = Inr ?s'" for k now' stamp'
      using st by (simp add: tick_def flushLive_settled)
    then show ?thesis using r by simp
  qed
  show ?thesis using A B C D by blast
qed

text \<open>
  C4: the theorem at the pause before the message \<open>Hi\<close> of a call just bound: one tick
  shows \<open>H\<close>, and the third tick commits the message and ends the interval.
\<close>

theorem typewriter_reveals_prefixes_witness:
  "settled (playing simulatedContinuation liveCall 0 [] ai) \<and>
   pending (playing simulatedContinuation liveCall 0 [] ai) = Some (Pause greeting) \<and>
   typeTimers (playing simulatedContinuation liveCall 0 [] ai) = [] \<and>
   (\<exists>s'. run simulatedContinuation (map Fired (FireTimeout # ticks [(0, [])]))
            (playing simulatedContinuation liveCall 0 [] ai) = Inr s' \<and>
      currentTypingText s' = js ''H'') \<and>
   (\<exists>s'. run simulatedContinuation
            (map Fired (FireTimeout # ticks [(0, []), (0, [])] @ [Tick 0 5 (js ''t'')]))
            (playing simulatedContinuation liveCall 0 [] ai) = Inr s' \<and>
      typeTimers s' = [] \<and>
      displayedMessages s' = [newMessage greeting 5 (js ''t'')])"
proof -
  let ?s = "playing simulatedContinuation liveCall 0 [] ai"
  have a: "settled ?s" by (rule settled_playing)
  have b: "pending ?s = Some (Pause greeting)"
    by (simp add: playing_def allMessages_eq liveCall_def)
  have c: "typeTimers ?s = []" by (simp add: playing_def)
  have d: "displayedMessages ?s = []" by (simp add: playing_def)
  note t = typewriter_reveals_prefixes [OF a b c, of simulatedContinuation]
  have len: "length (content greeting) = 2" by (simp add: greeting_def js_def)
  have tk: "take (length [(0::int, []::jsstring)]) (content greeting) = js ''H''"
    by (simp add: greeting_def js_def)
  have p1: "length [(0::int, []::jsstring)] \<le> length (content greeting)"
    by (simp add: len)
  have p2: "length [(0::int, []::jsstring), (0, [])] = length (content greeting)"
    by (simp add: len)
  from t [THEN conjunct1, rule_format, OF p1] obtain s1 where
    1: "run simulatedContinuation (map Fired (FireTimeout # ticks [(0, [])])) ?s = Inr s1"
      "currentTypingText s1 = js ''H''"
    unfolding tk by blast
  from t [THEN conjunct2, THEN conjunct2, THEN conjunct2, rule_format, OF p2, of 5 "js ''t''"]
  obtain s2 where
    2: "run simulatedContinuation
          (map Fired (FireTimeout # ticks [(0, []), (0, [])] @ [Tick 0 5 (js ''t'')])) ?s = Inr s2"
      "typeTimers s2 = []"
      "displayedMessages s2 = [newMessage greeting 5 (js ''t'')]"
    unfolding d append_Nil by blast
  show ?thesis using a b c 1 2 by blast
qed

subsection \<open>The display grows by commits\<close>

text \<open>
  C8, as the code has it. Take a call in progress, the state \<open>s\<close> after any timers of
  its binding, and one more timer. If it is the last tick of an interval, the display
  afterwards is the display before with one message appended, so it is one longer and
  keeps every entry. If it is the loop reset, the display afterwards is the display of
  the binding, all but the last message of the transcript: its length is one less than
  the length of the transcript, and never more than the length before. Any other timer
  leaves the display as it is.
\<close>

theorem displayed_append_only_until_reset:
  assumes "status c = in_progress"
  shows "\<exists>s0 s s'.
     mount sc c = Inr s0 \<and> runFrom sc c (map Fired ts) = Inr s \<and> fire sc t s = Inr s' \<and>
     displayedMessages s0 = butlast (transcript c) \<and>
     length (displayedMessages s0) = length (transcript c) - 1 \<and>
     length (displayedMessages s0) \<le> length (displayedMessages s) \<and>
     (case t of
        Tick k now stamp \<Rightarrow>
          if committing s k
          then displayedMessages s' =
                 displayedMessages s @ [newMessage (currentMessage (typeTimers s ! k)) now stamp] \<and>
               length (displayedMessages s') = Suc (length (displayedMessages s))
          else displayedMessages s' = displayedMessages s
      | FireTimeout \<Rightarrow>
          if resetting s
          then displayedMessages s' = displayedMessages s0 \<and>
               length (displayedMessages s') = length (transcript c) - 1 \<and>
               length (displayedMessages s') \<le> length (displayedMessages s)
          else displayedMessages s' = displayedMessages s)"
proof -
  let ?s0 = "playing sc c 0 (butlast (transcript c)) ai"
  have 0: "mount sc c = Inr ?s0" by (rule mount_live [OF assms])
  obtain s where s: "run sc (map Fired ts) ?s0 = Inr s" using run_total by blast
  obtain s' where s': "fire sc t s = Inr s'" using fire_total by blast
  have r: "runFrom sc c (map Fired ts) = Inr s" using s by (simp add: runFrom_def 0)
  have b: "bound c s" by (rule bound_run [OF bound_playing s])
  have d0: "displayedMessages ?s0 = butlast (transcript c)" by (simp add: playing_def)
  have l0: "length (displayedMessages ?s0) = length (transcript c) - 1" by (simp add: d0)
  have le: "length (displayedMessages ?s0) \<le> length (displayedMessages s)"
    using b by (auto simp: bound_def d0 prefix_def)
  have "case t of
        Tick k now stamp \<Rightarrow>
          if committing s k
          then displayedMessages s' =
                 displayedMessages s @ [newMessage (currentMessage (typeTimers s ! k)) now stamp] \<and>
               length (displayedMessages s') = Suc (length (displayedMessages s))
          else displayedMessages s' = displayedMessages s
      | FireTimeout \<Rightarrow>
          if resetting s
          then displayedMessages s' = displayedMessages ?s0 \<and>
               length (displayedMessages s') = length (transcript c) - 1 \<and>
               length (displayedMessages s') \<le> length (displayedMessages s)
          else displayedMessages s' = displayedMessages s"
  proof (cases t)
    case FireTimeout
    then show ?thesis
      using fire_displayed [OF s'] b le
      by (auto simp: resetting_def bound_def d0 slice_init split: option.splits Timeout.splits)
  next
    case (Tick k now stamp)
    then show ?thesis using fire_displayed [OF s'] by simp
  qed
  then show ?thesis using 0 r s' d0 l0 le by blast
qed

text \<open>
  C8: the theorem at the call with the message \<open>Hi\<close>, after the pause and two ticks: the
  third tick is the last of the interval and appends the message to the empty display.
\<close>

theorem displayed_append_only_until_reset_witness:
  "status liveCall = in_progress \<and>
   (\<exists>s s'.
      runFrom simulatedContinuation liveCall
        (map Fired (FireTimeout # ticks [(0, []), (0, [])])) = Inr s \<and>
      fire simulatedContinuation (Tick 0 5 (js ''t'')) s = Inr s' \<and>
      committing s 0 \<and>
      displayedMessages s = [] \<and>
      displayedMessages s' = [newMessage greeting 5 (js ''t'')])"
proof -
  let ?sc = simulatedContinuation
  let ?p = "playing ?sc liveCall 0 (butlast (transcript liveCall)) ai"
  let ?cs = "[(0::int, []::jsstring), (0, [])]"
  let ?s = "?p\<lparr>pending := None, typingRole := role greeting, isTyping := True,
            currentTypingText := take (length ?cs) (content greeting),
            typeTimers := [\<lparr>currentMessage = greeting, charIndex = length ?cs\<rparr>]\<rparr>"
  have a: "status liveCall = in_progress" by (simp add: liveCall_def)
  have b: "pending ?p = Some (Pause greeting)"
    by (simp add: playing_def allMessages_eq liveCall_def)
  have c: "typeTimers ?p = []" by (simp add: playing_def)
  have len: "length ?cs \<le> length (content greeting)" by (simp add: greeting_def js_def)
  have r: "runFrom ?sc liveCall (map Fired (FireTimeout # ticks ?cs)) = Inr ?s"
    unfolding runFrom_live [OF a] by (rule typing_run [OF settled_playing b c len])
  have cm: "committing ?s 0" by (simp add: committing_def greeting_def js_def)
  have d: "displayedMessages ?s = []" by (simp add: playing_def liveCall_def)
  have m: "currentMessage (typeTimers ?s ! 0) = greeting" by simp
  from displayed_append_only_until_reset [OF a, of ?sc "FireTimeout # ticks ?cs"
      "Tick 0 5 (js ''t'')"]
  obtain s s' where
    1: "runFrom ?sc liveCall (map Fired (FireTimeout # ticks ?cs)) = Inr s"
    and 2: "fire ?sc (Tick 0 5 (js ''t'')) s = Inr s'"
    and 3: "if committing s 0
          then displayedMessages s' =
                 displayedMessages s @ [newMessage (currentMessage (typeTimers s ! 0)) 5 (js ''t'')] \<and>
               length (displayedMessages s') = Suc (length (displayedMessages s))
          else displayedMessages s' = displayedMessages s"
    by auto
  have s: "s = ?s" using 1 r by simp
  have "displayedMessages s' = [newMessage greeting 5 (js ''t'')]"
    using 3 cm d m unfolding s by simp
  then show ?thesis using a 1 2 cm d unfolding s by blast
qed

text \<open>
  C8 as stated fails at the loop reset. In the scenario the seed, the last message of
  the transcript, is one message, and three commits put three messages on display;
  the reset then leaves none, the length of the display at binding, not the length 1 of
  the seed.
\<close>

theorem reset_below_seed_length_counterexample:
  "length (slice (transcript scenarioCall) (- 1) None) = 1 \<and>
   observe (\<lambda>s. length (displayedMessages s)) (mount scenarioScript scenarioCall) = Some 0 \<and>
   observe (\<lambda>s. length (displayedMessages s)) (runFrom scenarioScript scenarioCall
     (map Fired (playback [scenarioA, scenarioQ1, scenarioA1] (\<lambda>i. (0, [])) 3))) = Some 3 \<and>
   observe resetting (runFrom scenarioScript scenarioCall
     (map Fired (playback [scenarioA, scenarioQ1, scenarioA1] (\<lambda>i. (0, [])) 3))) = Some True \<and>
   observe (\<lambda>s. length (displayedMessages s)) (runFrom scenarioScript scenarioCall
     (map Fired (playback [scenarioA, scenarioQ1, scenarioA1] (\<lambda>i. (0, [])) 3 @ [FireTimeout])))
     = Some 0"
proof -
  let ?ms = "[scenarioA, scenarioQ1, scenarioA1]"
  let ?clk = "\<lambda>i::nat. (0::int, []::jsstring)"
  have le: "(3::nat) \<le> 3" by simp
  have r: "runFrom scenarioScript scenarioCall (map Fired (playback ?ms ?clk 3)) =
     Inr (playing scenarioScript scenarioCall 3 (committed ?ms ?clk 3) (lastRole ?ms 3 ai))"
    using scenario_run [OF le, of "\<lambda>j. ?clk" 0 ?clk] by (simp add: cycles_def)
  have 0: "length (slice (transcript scenarioCall) (- 1) None) = 1"
    by (simp add: slice_last scenarioCall_def)
  have 1: "observe (\<lambda>s. length (displayedMessages s)) (mount scenarioScript scenarioCall) = Some 0"
    using mount_live [OF scenario_live, of scenarioScript]
    by (simp add: scenario_shown observe_Inr playing_def)
  have 2: "observe (\<lambda>s. length (displayedMessages s)) (runFrom scenarioScript scenarioCall
     (map Fired (playback ?ms ?clk 3))) = Some 3"
    unfolding r observe_Inr committed_upto by (simp add: playing_def)
  have 3: "observe resetting (runFrom scenarioScript scenarioCall
     (map Fired (playback ?ms ?clk 3))) = Some True"
    unfolding r observe_Inr
    by (simp add: playing_def resetting_def allMessages_eq scenarioCall_def scenarioScript_def)
  have 4: "observe (\<lambda>s. length (displayedMessages s)) (runFrom scenarioScript scenarioCall
     (map Fired (playback ?ms ?clk 3 @ [FireTimeout]))) = Some 0"
    using scenario_reset [of "\<lambda>j. ?clk" 0 ?clk]
    by (simp add: cycles_def observe_Inr playing_def)
  show ?thesis using 0 1 2 3 4 by blast
qed

subsection \<open>What a commit appends\<close>

text \<open>
  C7. In a live binding, after any whole cycles and the first \<open>k\<close> messages of the next,
  typing message \<open>k\<close> of \<open>allMessages\<close> out ends in a commit: the display is the display
  before with one message appended, whose content and role are those of the script
  message, whose timestamp is the clock string read at the commit, and whose id is the
  id of the script message, a hyphen and the decimal digits of the clock's milliseconds.
  The typing text is empty, nothing is typing, and the call with its script is the
  same. Two commits of one script message have the same id only at the same
  millisecond.
\<close>

theorem commit_appends_stamped_copy:
  assumes "status c = in_progress" and "k < length (allMessages sc (transcript c))"
  shows "\<exists>s s'.
     runFrom sc c (map Fired (cycles (allMessages sc (transcript c)) clks n @
                     playback (allMessages sc (transcript c)) clk k)) = Inr s \<and>
     run sc (map Fired (typeOut (allMessages sc (transcript c) ! k) now stamp)) s = Inr s' \<and>
     displayedMessages s' =
       displayedMessages s @ [newMessage (allMessages sc (transcript c) ! k) now stamp] \<and>
     content (newMessage (allMessages sc (transcript c) ! k) now stamp) =
       content (allMessages sc (transcript c) ! k) \<and>
     role (newMessage (allMessages sc (transcript c) ! k) now stamp) =
       role (allMessages sc (transcript c) ! k) \<and>
     timestamp (newMessage (allMessages sc (transcript c) ! k) now stamp) = stamp \<and>
     id_msg (newMessage (allMessages sc (transcript c) ! k) now stamp) =
       id_msg (allMessages sc (transcript c) ! k) @ js ''-'' @ numberToString now \<and>
     (\<forall>now' stamp'.
        (id_msg (newMessage (allMessages sc (transcript c) ! k) now' stamp') =
         id_msg (newMessage (allMessages sc (transcript c) ! k) now stamp)) = (now' = now)) \<and>
     currentTypingText s' = [] \<and> \<not> isTyping s' \<and> typeTimers s' = [] \<and>
     messageIndex s' = Suc k \<and> call s' = c \<and> call s = c"
proof -
  let ?ms = "allMessages sc (transcript c)"
  let ?r = "lastRole ?ms k (if n = 0 then ai else role (last ?ms))"
  let ?s = "playing sc c k (butlast (transcript c) @ committed ?ms clk k) ?r"
  let ?s' = "playing sc c (Suc k)
       ((butlast (transcript c) @ committed ?ms clk k) @ [newMessage (?ms ! k) now stamp])
       (role (?ms ! k))"
  have ne: "?ms \<noteq> []" using assms(2) by auto
  have le: "k \<le> length ?ms" using assms(2) by simp
  have 1: "runFrom sc c (map Fired (cycles ?ms clks n @ playback ?ms clk k)) = Inr ?s"
    by (rule runFrom_cycles_playback [OF assms(1) ne le])
  have 2: "run sc (map Fired (typeOut (?ms ! k) now stamp)) ?s = Inr ?s'"
    by (rule typeOut_playing [OF assms(2)])
  have 3: "displayedMessages ?s' = displayedMessages ?s @ [newMessage (?ms ! k) now stamp]"
    by (simp add: playing_def)
  have 4: "content (newMessage (?ms ! k) now stamp) = content (?ms ! k) \<and>
      role (newMessage (?ms ! k) now stamp) = role (?ms ! k) \<and>
      timestamp (newMessage (?ms ! k) now stamp) = stamp \<and>
      id_msg (newMessage (?ms ! k) now stamp) = id_msg (?ms ! k) @ js ''-'' @ numberToString now"
    by (simp add: newMessage_def)
  have 5: "\<forall>now' stamp'. (id_msg (newMessage (?ms ! k) now' stamp') =
         id_msg (newMessage (?ms ! k) now stamp)) = (now' = now)"
    by (simp add: newMessage_id_inj)
  have 6: "currentTypingText ?s' = [] \<and> \<not> isTyping ?s' \<and> typeTimers ?s' = [] \<and>
     messageIndex ?s' = Suc k \<and> call ?s' = c \<and> call ?s = c"
    by (simp add: playing_def)
  show ?thesis using 1 2 3 4 5 6 by blast
qed

text \<open>
  C7: the theorem at the second message of the second cycle of the call with the
  message \<open>Hi\<close>, which is the first message of the continuation.
\<close>

theorem commit_appends_stamped_copy_witness:
  "status liveCall = in_progress \<and>
   1 < length (allMessages simulatedContinuation (transcript liveCall)) \<and>
   allMessages simulatedContinuation (transcript liveCall) ! 1 = simulatedContinuation ! 0 \<and>
   (\<exists>s s'.
     runFrom simulatedContinuation liveCall
       (map Fired (cycles (allMessages simulatedContinuation (transcript liveCall))
                     (\<lambda>j i. (0, [])) 1 @
                   playback (allMessages simulatedContinuation (transcript liveCall))
                     (\<lambda>i. (0, [])) 1)) = Inr s \<and>
     run simulatedContinuation
       (map Fired (typeOut (simulatedContinuation ! 0) 1714557600123 (js ''t''))) s = Inr s' \<and>
     displayedMessages s' =
       displayedMessages s @ [newMessage (simulatedContinuation ! 0) 1714557600123 (js ''t'')] \<and>
     id_msg (newMessage (simulatedContinuation ! 0) 1714557600123 (js ''t'')) =
       js ''sim1-1714557600123'' \<and>
     \<not> isTyping s')"
proof -
  let ?sc = simulatedContinuation
  have a: "status liveCall = in_progress" by (simp add: liveCall_def)
  have l: "length (allMessages ?sc (transcript liveCall)) = 13"
    by (simp add: length_allMessages length_simulatedContinuation liveCall_def)
  have b: "1 < length (allMessages ?sc (transcript liveCall))" by (simp add: l)
  have n: "allMessages ?sc (transcript liveCall) ! 1 = ?sc ! 0"
    by (simp add: allMessages_eq liveCall_def)
  have i: "id_msg (?sc ! 0) @ js ''-'' @ numberToString 1714557600123 = js ''sim1-1714557600123''"
    by (simp add: simulatedContinuation_def numberToString_def digits.simps digitChar_def js_def)
  from commit_appends_stamped_copy [OF a b, of "\<lambda>j i. (0, [])" 1 "\<lambda>i. (0, [])"
      1714557600123 "js ''t''", unfolded n i]
  obtain s s' where
    "runFrom ?sc liveCall
       (map Fired (cycles (allMessages ?sc (transcript liveCall)) (\<lambda>j i. (0, [])) 1 @
                   playback (allMessages ?sc (transcript liveCall)) (\<lambda>i. (0, [])) 1)) = Inr s"
    "run ?sc (map Fired (typeOut (?sc ! 0) 1714557600123 (js ''t''))) s = Inr s'"
    "displayedMessages s' =
       displayedMessages s @ [newMessage (?sc ! 0) 1714557600123 (js ''t'')]"
    "id_msg (newMessage (?sc ! 0) 1714557600123 (js ''t'')) = js ''sim1-1714557600123''"
    "\<not> isTyping s'"
    by blast
  then show ?thesis using a b n by blast
qed

subsection \<open>Calls that are not in progress\<close>

text \<open>
  C5, as the code has it. When the component mounts with a call that is completed or
  missed, no render schedules a timer, the whole transcript is on display, nothing is
  typing, and every timer event leaves the state as it is. When such a call is bound
  in place of another, in any state the component can reach in which no interval is
  running, the whole transcript is on display, nothing is typing, and no timer is
  pending or fires from then on: the timeout of the old binding is cleared, and so is
  the one the live effect may schedule in the render between. Nothing is said here of
  a prop change while an interval is running, which is the case of C1.
\<close>

theorem static_call_shown_at_once:
  assumes "status c \<noteq> in_progress"
  shows
   "(\<exists>s' s0. flushLive sc ((initial c)\<lparr>call := c\<rparr>) = Inr s' \<and> pending s' = None \<and>
       mount sc c = Inr s0 \<and>
       displayedMessages s0 = transcript c \<and> \<not> isTyping s0 \<and> \<not> isLiveDemo s0 \<and>
       pending s0 = None \<and> typeTimers s0 = [] \<and>
       (\<forall>ts. run sc (map Fired ts) s0 = Inr s0)) \<and>
    (\<forall>c0 es. \<exists>s. runFrom sc c0 es = Inr s \<and>
       (typeTimers s = [] \<longrightarrow>
          (\<exists>s1. rebind sc c s = Inr s1 \<and>
             displayedMessages s1 = transcript c \<and> \<not> isTyping s1 \<and> \<not> isLiveDemo s1 \<and>
             pending s1 = None \<and> typeTimers s1 = [] \<and>
             (\<forall>ts. run sc (map Fired ts) s1 = Inr s1))))"
proof -
  have f: "displayedMessages (still c r k buf) = transcript c \<and> \<not> isTyping (still c r k buf) \<and>
      \<not> isLiveDemo (still c r k buf) \<and> pending (still c r k buf) = None \<and>
      typeTimers (still c r k buf) = []" for r k buf
    by (simp add: still_def)
  have p: "pending ((initial c)\<lparr>liveDeps := Some (False, 0, transcriptRef c)\<rparr>) = None"
    by (simp add: initial_def)
  have A: "\<exists>s' s0. flushLive sc ((initial c)\<lparr>call := c\<rparr>) = Inr s' \<and> pending s' = None \<and>
       mount sc c = Inr s0 \<and>
       displayedMessages s0 = transcript c \<and> \<not> isTyping s0 \<and> \<not> isLiveDemo s0 \<and>
       pending s0 = None \<and> typeTimers s0 = [] \<and>
       (\<forall>ts. run sc (map Fired ts) s0 = Inr s0)"
    using first_render_static [of sc c] p mount_static [OF assms, of sc] f run_still by blast
  show ?thesis using A rebind_static_reachable [OF assms] by blast
qed

text \<open>
  C5: the theorem at the completed call with five messages, mounted, and bound in place
  of the call in progress while the pause before its first message is pending.
\<close>

theorem static_call_shown_at_once_witness:
  "status archivedCall \<noteq> in_progress \<and>
   (\<exists>s0. mount simulatedContinuation archivedCall = Inr s0 \<and>
      length (displayedMessages s0) = 5 \<and> \<not> isTyping s0 \<and> pending s0 = None \<and>
      typeTimers s0 = [] \<and>
      run simulatedContinuation (map Fired [FireTimeout, Tick 0 0 [], FireTimeout]) s0 = Inr s0) \<and>
   (\<exists>s s1. runFrom simulatedContinuation liveCall [] = Inr s \<and>
      pending s = Some (Pause greeting) \<and> typeTimers s = [] \<and>
      rebind simulatedContinuation archivedCall s = Inr s1 \<and>
      length (displayedMessages s1) = 5 \<and> \<not> isTyping s1 \<and> pending s1 = None \<and>
      typeTimers s1 = [] \<and>
      run simulatedContinuation (map Fired [FireTimeout, Tick 0 0 [], FireTimeout]) s1 = Inr s1)"
proof -
  let ?sc = simulatedContinuation
  let ?p = "playing ?sc liveCall 0 (butlast (transcript liveCall)) ai"
  have a: "status archivedCall \<noteq> in_progress" by (simp add: archivedCall_def)
  have lv: "status liveCall = in_progress" by (simp add: liveCall_def)
  have r: "runFrom ?sc liveCall [] = Inr ?p" by (simp add: runFrom_live [OF lv])
  have p: "pending ?p = Some (Pause greeting)"
    by (simp add: playing_def allMessages_eq liveCall_def)
  have tt: "typeTimers ?p = []" by (simp add: playing_def)
  have l: "length (transcript archivedCall) = 5" by (simp add: archivedCall_def)
  note t = static_call_shown_at_once [OF a, of ?sc]
  from t obtain s0 where
    0: "mount ?sc archivedCall = Inr s0" "displayedMessages s0 = transcript archivedCall"
      "\<not> isTyping s0" "pending s0 = None" "typeTimers s0 = []"
      "\<forall>ts. run ?sc (map Fired ts) s0 = Inr s0"
    by blast
  from t obtain s where
    s: "runFrom ?sc liveCall [] = Inr s"
    and i: "typeTimers s = [] \<longrightarrow>
          (\<exists>s1. rebind ?sc archivedCall s = Inr s1 \<and>
             displayedMessages s1 = transcript archivedCall \<and> \<not> isTyping s1 \<and>
             \<not> isLiveDemo s1 \<and> pending s1 = None \<and> typeTimers s1 = [] \<and>
             (\<forall>ts. run ?sc (map Fired ts) s1 = Inr s1))"
    by blast
  have e: "s = ?p" using s r by simp
  from i tt obtain s1 where
    1: "rebind ?sc archivedCall s = Inr s1" "displayedMessages s1 = transcript archivedCall"
      "\<not> isTyping s1" "pending s1 = None" "typeTimers s1 = []"
      "\<forall>ts. run ?sc (map Fired ts) s1 = Inr s1"
    unfolding e by blast
  have l0: "length (displayedMessages s0) = 5" using 0(2) l by simp
  have l1: "length (displayedMessages s1) = 5" using 1(2) l by simp
  have r0: "run ?sc (map Fired [FireTimeout, Tick 0 0 [], FireTimeout]) s0 = Inr s0"
    using 0(6) by blast
  have r1: "run ?sc (map Fired [FireTimeout, Tick 0 0 [], FireTimeout]) s1 = Inr s1"
    using 1(6) by blast
  have ps: "pending s = Some (Pause greeting)" "typeTimers s = []"
    unfolding e using p tt by simp_all
  show ?thesis using a s ps 0(1,3,4,5) 1(1,3,4,5) l0 l1 r0 r1 by blast
qed

text \<open>
  C5 as stated fails when the completed call with five messages is bound in place of
  the call in progress. Bound while the pause is pending, the render with the new call
  and the old state schedules a timeout, the pause before the last message of the new
  transcript, which the next render clears. Bound while \<open>Hi\<close> is being typed,
  \<open>isTyping\<close> is true after the binding, the interval of the old binding is running,
  and after two of its ticks six messages are on display.
\<close>

theorem static_rebind_counterexample:
  "status archivedCall = completed \<and> length (transcript archivedCall) = 5 \<and>
   mount simulatedContinuation liveCall = Inr (playing simulatedContinuation liveCall 0 [] ai) \<and>
   observe pending (flushLive simulatedContinuation
      ((playing simulatedContinuation liveCall 0 [] ai)\<lparr>call := archivedCall\<rparr>)) =
     Some (Some (Pause (last (transcript archivedCall)))) \<and>
   observe isTyping (runFrom simulatedContinuation liveCall interrupted) = Some True \<and>
   observe (\<lambda>s. length (typeTimers s)) (runFrom simulatedContinuation liveCall interrupted) =
     Some 1 \<and>
   observe (\<lambda>s. length (displayedMessages s)) (runFrom simulatedContinuation liveCall
     (interrupted @ [Fired (Tick 0 0 []), Fired (Tick 0 9 (js ''t''))])) = Some 6"
proof -
  let ?sc = simulatedContinuation
  let ?p = "playing ?sc liveCall 0 (butlast (transcript liveCall)) ai"
  let ?cs = "[(0::int, []::jsstring)]"
  let ?s1 = "?p\<lparr>pending := None, typingRole := role greeting, isTyping := True,
            currentTypingText := take (length ?cs) (content greeting),
            typeTimers := [\<lparr>currentMessage = greeting, charIndex = length ?cs\<rparr>]\<rparr>"
  let ?r = "?s1\<lparr>call := archivedCall, displayedMessages := transcript archivedCall,
            isLiveDemo := False, pending := None, liveDeps := Some (False, 0, 2)\<rparr>"
  let ?t1 = "?r\<lparr>currentTypingText := take (Suc 1) (content greeting),
            typeTimers := [\<lparr>currentMessage = greeting, charIndex = Suc 1\<rparr>]\<rparr>"
  let ?t2 = "?t1\<lparr>typeTimers := [], isTyping := False, currentTypingText := [],
            displayedMessages := displayedMessages ?t1 @ [newMessage greeting 9 (js ''t'')],
            messageIndex := Suc (messageIndex ?t1)\<rparr>"
  have a: "status liveCall = in_progress" by (simp add: liveCall_def)
  have bl: "butlast (transcript liveCall) = []" by (simp add: liveCall_def)
  have b: "pending ?p = Some (Pause greeting)"
    by (simp add: playing_def allMessages_eq liveCall_def)
  have c: "typeTimers ?p = []" by (simp add: playing_def)
  have len: "length ?cs \<le> length (content greeting)" by (simp add: greeting_def js_def)
  have g: "length (content greeting) = 2" by (simp add: greeting_def js_def)
  have st: "status archivedCall = completed" "transcriptRef archivedCall = 2"
      "transcriptRef liveCall = 1"
    by (simp_all add: archivedCall_def liveCall_def)
  have l: "length (transcript archivedCall) = 5" by (simp add: archivedCall_def)
  have ne: "transcript archivedCall \<noteq> []" using l by auto
  have m: "mount ?sc liveCall = Inr (playing ?sc liveCall 0 [] ai)"
    using mount_live [OF a, of ?sc] by (simp only: bl)
  have i: "observe pending (flushLive ?sc ((playing ?sc liveCall 0 [] ai)\<lparr>call := archivedCall\<rparr>)) =
      Some (Some (Pause (last (transcript archivedCall))))"
    using ne
    by (simp add: flushLive_Inr observe_Inr settled_def deps_def scheduled_def playing_def st
        allMessages_eq)
  have r1: "run ?sc (map Fired (FireTimeout # ticks ?cs)) ?p = Inr ?s1"
    by (rule typing_run [OF settled_playing b c len])
  have r2: "rebind ?sc archivedCall ?s1 = Inr ?r"
    by (simp add: rebind_Inr flushLive_Inr initEffect_def settled_def deps_def scheduled_def
        playing_def st)
  have sr: "settled ?r" by (simp add: settled_def deps_def st playing_def)
  have tr: "typeTimers ?r = [\<lparr>currentMessage = greeting, charIndex = 1\<rparr>]" by simp
  have r3: "fire ?sc (Tick 0 0 []) ?r = Inr ?t1"
    by (rule fire_reveal [OF sr tr]) (simp add: g)
  have tt: "typeTimers ?t1 = [\<lparr>currentMessage = greeting, charIndex = Suc 1\<rparr>]" by simp
  have r4: "fire ?sc (Tick 0 9 (js ''t'')) ?t1 = flushLive ?sc ?t2"
    by (rule fire_commit [OF tt]) (simp add: g)
  obtain t3 where r5: "flushLive ?sc ?t2 = Inr t3" using flushLive_Inr by blast
  have f5: "displayedMessages t3 = displayedMessages ?t2"
    using flushLive_displayed [OF r5] by simp
  have R': "run ?sc interrupted ?p = Inr ?r"
    unfolding interrupted_def by (rule run_snoc [OF r1]) (simp only: step.simps r2)
  have T1': "run ?sc (interrupted @ [Fired (Tick 0 0 [])]) ?p = Inr ?t1"
    by (rule run_snoc [OF R']) (simp only: step.simps r3)
  have T2': "run ?sc ((interrupted @ [Fired (Tick 0 0 [])]) @ [Fired (Tick 0 9 (js ''t''))]) ?p =
      Inr t3"
    by (rule run_snoc [OF T1']) (simp only: step.simps r4 r5)
  have R: "runFrom ?sc liveCall interrupted = Inr ?r"
    unfolding runFrom_live [OF a] by (rule R')
  have T2: "runFrom ?sc liveCall
      (interrupted @ [Fired (Tick 0 0 []), Fired (Tick 0 9 (js ''t''))]) = Inr t3"
    unfolding runFrom_live [OF a] using T2' by simp
  have o1: "observe isTyping (Inr ?r) = Some True" by (simp add: observe_Inr)
  have o2: "observe (\<lambda>s. length (typeTimers s)) (Inr ?r) = Some 1" by (simp add: observe_Inr)
  have o3: "observe (\<lambda>s. length (displayedMessages s)) (Inr t3) = Some 6"
    using f5 l by (simp add: observe_Inr)
  show ?thesis
    unfolding R T2 using st(1) l m i o1 o2 o3 by blast
qed

subsection \<open>Calls with an empty transcript\<close>

text \<open>
  C6, as the code has it. When the component mounts with a call whose transcript is
  empty, nothing is on display, nothing is typing, and no run of the component raises.
  If the call is not in progress, no timer is pending and every timer event leaves the
  state as it is; the same holds when the call is bound in place of another in a state
  the component can reach in which no interval is running. If the call is in progress,
  the engine is not idle: the pause before the first message of the continuation is
  pending (the loop reset, were the continuation empty), and typing the first \<open>k\<close>
  messages of the continuation out puts exactly these \<open>k\<close> commits on display.
\<close>

theorem empty_transcript_shows_nothing:
  assumes "transcript c = []"
  shows
   "(\<exists>s0. mount sc c = Inr s0 \<and>
       displayedMessages s0 = [] \<and> \<not> isTyping s0 \<and> typeTimers s0 = [] \<and>
       (status c \<noteq> in_progress \<longrightarrow>
          \<not> isLiveDemo s0 \<and> pending s0 = None \<and>
          (\<forall>ts. run sc (map Fired ts) s0 = Inr s0)) \<and>
       (status c = in_progress \<longrightarrow>
          isLiveDemo s0 \<and>
          pending s0 = (if sc = [] then Some (Cooldown []) else Some (Pause (sc ! 0))) \<and>
          (\<forall>clk k. k \<le> length sc \<longrightarrow>
             (\<exists>s. run sc (map Fired (playback sc clk k)) s0 = Inr s \<and>
                displayedMessages s = committed sc clk k \<and>
                length (displayedMessages s) = k \<and> messageIndex s = k)))) \<and>
    (\<forall>es. \<exists>s. runFrom sc c es = Inr s) \<and>
    (status c \<noteq> in_progress \<longrightarrow>
       (\<forall>c0 es. \<exists>s. runFrom sc c0 es = Inr s \<and>
          (typeTimers s = [] \<longrightarrow>
             (\<exists>s1. rebind sc c s = Inr s1 \<and>
                displayedMessages s1 = [] \<and> \<not> isTyping s1 \<and> \<not> isLiveDemo s1 \<and>
                pending s1 = None \<and> typeTimers s1 = [] \<and>
                (\<forall>ts. run sc (map Fired ts) s1 = Inr s1)))))"
proof -
  have T: "\<forall>es. \<exists>s. runFrom sc c es = Inr s" using runFrom_total by blast
  have R: "status c \<noteq> in_progress \<longrightarrow>
       (\<forall>c0 es. \<exists>s. runFrom sc c0 es = Inr s \<and>
          (typeTimers s = [] \<longrightarrow>
             (\<exists>s1. rebind sc c s = Inr s1 \<and>
                displayedMessages s1 = [] \<and> \<not> isTyping s1 \<and> \<not> isLiveDemo s1 \<and>
                pending s1 = None \<and> typeTimers s1 = [] \<and>
                (\<forall>ts. run sc (map Fired ts) s1 = Inr s1))))"
    using rebind_static_reachable [of c sc] assms by simp
  have M: "\<exists>s0. mount sc c = Inr s0 \<and>
       displayedMessages s0 = [] \<and> \<not> isTyping s0 \<and> typeTimers s0 = [] \<and>
       (status c \<noteq> in_progress \<longrightarrow>
          \<not> isLiveDemo s0 \<and> pending s0 = None \<and>
          (\<forall>ts. run sc (map Fired ts) s0 = Inr s0)) \<and>
       (status c = in_progress \<longrightarrow>
          isLiveDemo s0 \<and>
          pending s0 = (if sc = [] then Some (Cooldown []) else Some (Pause (sc ! 0))) \<and>
          (\<forall>clk k. k \<le> length sc \<longrightarrow>
             (\<exists>s. run sc (map Fired (playback sc clk k)) s0 = Inr s \<and>
                displayedMessages s = committed sc clk k \<and>
                length (displayedMessages s) = k \<and> messageIndex s = k)))"
  proof (cases "status c = in_progress")
    case True
    let ?s0 = "playing sc c 0 (butlast (transcript c)) ai"
    have ms: "allMessages sc (transcript c) = sc" using assms by (simp add: allMessages_eq)
    have 0: "mount sc c = Inr ?s0" by (rule mount_live [OF True])
    have f: "displayedMessages ?s0 = [] \<and> \<not> isTyping ?s0 \<and> typeTimers ?s0 = [] \<and>
        isLiveDemo ?s0 \<and>
        pending ?s0 = (if sc = [] then Some (Cooldown []) else Some (Pause (sc ! 0)))"
      using assms by (simp add: playing_def allMessages_eq)
    have p: "\<exists>s. run sc (map Fired (playback sc clk k)) ?s0 = Inr s \<and>
                displayedMessages s = committed sc clk k \<and>
                length (displayedMessages s) = k \<and> messageIndex s = k"
      if "k \<le> length sc" for clk k
    proof -
      have k: "k \<le> length (allMessages sc (transcript c))" using that ms by simp
      have "run sc (map Fired (playback sc clk k)) ?s0 =
         Inr (playing sc c k (butlast (transcript c) @ committed sc clk k) (lastRole sc k ai))"
        using playback_playing [OF k, of clk "butlast (transcript c)" ai] by (simp only: ms)
      then show ?thesis using assms by (simp add: playing_def committed_def)
    qed
    show ?thesis using True 0 f p by blast
  next
    case False
    have "mount sc c = Inr (still c ai 0 [])" by (rule mount_static [OF False])
    moreover have "displayedMessages (still c ai 0 []) = [] \<and> \<not> isTyping (still c ai 0 []) \<and>
        typeTimers (still c ai 0 []) = [] \<and> \<not> isLiveDemo (still c ai 0 []) \<and>
        pending (still c ai 0 []) = None"
      using assms by (simp add: still_def)
    ultimately show ?thesis using False run_still by blast
  qed
  show ?thesis using M T R by blast
qed

text \<open>
  C6: the theorem at the missed call with no transcript, mounted, and bound in place of
  the call in progress while its pause is pending; and at the call in progress with no
  transcript, where the twelve messages of the continuation are typed out.
\<close>

theorem empty_transcript_shows_nothing_witness:
  "transcript missedCall = [] \<and> status missedCall \<noteq> in_progress \<and>
   transcript silentCall = [] \<and> status silentCall = in_progress \<and>
   (\<exists>s0. mount simulatedContinuation missedCall = Inr s0 \<and>
      displayedMessages s0 = [] \<and> typeTimers s0 = [] \<and> pending s0 = None \<and>
      run simulatedContinuation (map Fired [FireTimeout, Tick 0 0 []]) s0 = Inr s0) \<and>
   (\<exists>s s1. runFrom simulatedContinuation liveCall [] = Inr s \<and> typeTimers s = [] \<and>
      rebind simulatedContinuation missedCall s = Inr s1 \<and>
      displayedMessages s1 = [] \<and> pending s1 = None \<and> typeTimers s1 = []) \<and>
   (\<exists>s0 s. mount simulatedContinuation silentCall = Inr s0 \<and>
      displayedMessages s0 = [] \<and>
      pending s0 = Some (Pause (simulatedContinuation ! 0)) \<and>
      run simulatedContinuation (map Fired (playback simulatedContinuation (\<lambda>i. (0, [])) 12)) s0 =
        Inr s \<and>
      length (displayedMessages s) = 12)"
proof -
  let ?sc = simulatedContinuation
  let ?p = "playing ?sc liveCall 0 (butlast (transcript liveCall)) ai"
  have a: "transcript missedCall = []" by (simp add: missedCall_def)
  have b: "status missedCall \<noteq> in_progress" by (simp add: missedCall_def)
  have a': "transcript silentCall = []" by (simp add: silentCall_def)
  have b': "status silentCall = in_progress" by (simp add: silentCall_def)
  have lv: "status liveCall = in_progress" by (simp add: liveCall_def)
  have r: "runFrom ?sc liveCall [] = Inr ?p" by (simp add: runFrom_live [OF lv])
  have tt: "typeTimers ?p = []" by (simp add: playing_def)
  have ne: "?sc \<noteq> []" using length_simulatedContinuation by auto
  note t = empty_transcript_shows_nothing [OF a, of ?sc]
  note t' = empty_transcript_shows_nothing [OF a', of ?sc]
  from t b obtain s0 where
    0: "mount ?sc missedCall = Inr s0" "displayedMessages s0 = []"
      "typeTimers s0 = []" "pending s0 = None"
      "\<forall>ts. run ?sc (map Fired ts) s0 = Inr s0"
    by blast
  have r0: "run ?sc (map Fired [FireTimeout, Tick 0 0 []]) s0 = Inr s0"
    using 0(5) by blast
  from t b obtain s where
    s: "runFrom ?sc liveCall [] = Inr s"
    and i: "typeTimers s = [] \<longrightarrow>
          (\<exists>s1. rebind ?sc missedCall s = Inr s1 \<and>
             displayedMessages s1 = [] \<and> \<not> isTyping s1 \<and> \<not> isLiveDemo s1 \<and>
             pending s1 = None \<and> typeTimers s1 = [] \<and>
             (\<forall>ts. run ?sc (map Fired ts) s1 = Inr s1))"
    by blast
  have e: "s = ?p" using s r by simp
  have ts: "typeTimers s = []" unfolding e by (rule tt)
  from i ts obtain s1 where
    1: "rebind ?sc missedCall s = Inr s1" "displayedMessages s1 = []"
      "pending s1 = None" "typeTimers s1 = []"
    by blast
  from t' b' obtain u0 where
    2: "mount ?sc silentCall = Inr u0" "displayedMessages u0 = []"
      "pending u0 = (if ?sc = [] then Some (Cooldown []) else Some (Pause (?sc ! 0)))"
    and 3: "\<forall>clk k. k \<le> length ?sc \<longrightarrow>
             (\<exists>s. run ?sc (map Fired (playback ?sc clk k)) u0 = Inr s \<and>
                displayedMessages s = committed ?sc clk k \<and>
                length (displayedMessages s) = k \<and> messageIndex s = k)"
    by blast
  have p2: "pending u0 = Some (Pause (?sc ! 0))" using 2(3) ne by simp
  have "12 \<le> length ?sc" by (simp add: length_simulatedContinuation)
  with 3 obtain u where
    4: "run ?sc (map Fired (playback ?sc (\<lambda>i. (0, [])) 12)) u0 = Inr u"
      "length (displayedMessages u) = 12"
    by blast
  show ?thesis using a b a' b' 0(1-4) r0 s ts 1 2(1,2) p2 4 by blast
qed

text \<open>
  C6 as stated fails for a call in progress: with an empty transcript the binding
  schedules the pause before the first message of the continuation, and typing it out
  puts a message on display.
\<close>

theorem empty_live_call_counterexample:
  "transcript silentCall = [] \<and>
   observe pending (mount simulatedContinuation silentCall) =
     Some (Some (Pause (simulatedContinuation ! 0))) \<and>
   observe (\<lambda>s. length (displayedMessages s))
     (runFrom simulatedContinuation silentCall
        (map Fired (typeOut (simulatedContinuation ! 0) 0 []))) = Some 1"
proof -
  let ?sc = simulatedContinuation
  have a: "status silentCall = in_progress" by (simp add: silentCall_def)
  have b: "transcript silentCall = []" by (simp add: silentCall_def)
  have ms: "allMessages ?sc (transcript silentCall) = ?sc"
    by (simp add: allMessages_eq b)
  have k: "0 < length (allMessages ?sc (transcript silentCall))"
    by (simp add: ms length_simulatedContinuation)
  have 1: "observe pending (mount ?sc silentCall) = Some (Some (Pause (?sc ! 0)))"
    unfolding mount_live [OF a] observe_Inr
    using k by (simp add: playing_def ms)
  have "run ?sc (map Fired (typeOut (allMessages ?sc (transcript silentCall) ! 0) 0 []))
          (playing ?sc silentCall 0 (butlast (transcript silentCall)) ai) =
     Inr (playing ?sc silentCall (Suc 0)
            (butlast (transcript silentCall) @
               [newMessage (allMessages ?sc (transcript silentCall) ! 0) 0 []])
            (role (allMessages ?sc (transcript silentCall) ! 0)))"
    by (rule typeOut_playing [OF k])
  then have 2: "observe (\<lambda>s. length (displayedMessages s))
     (runFrom ?sc silentCall (map Fired (typeOut (?sc ! 0) 0 []))) = Some 1"
    unfolding runFrom_live [OF a] ms by (simp add: observe_Inr playing_def b)
  show ?thesis using b 1 2 by blast
qed

subsection \<open>Rebinding while a message is typed\<close>

text \<open>
  C1 fails on the code. The cleanup of the live effect clears the pause or the loop
  reset, but not the interval: the function that would clear it is returned from the
  pause callback, where nothing calls it. So when the completed call is bound while
  \<open>Hi\<close> is being typed, the interval of the old binding is still running and
  \<open>isTyping\<close> is still true; its next tick puts \<open>Hi\<close> in the typing text of the new
  binding, and its last tick appends the old message to the five displayed messages of
  the new call and advances the index. Unmounting leaves the interval running too.
\<close>

theorem rebind_leaves_interval_running:
  "observe typeTimers (runFrom simulatedContinuation liveCall interrupted) =
     Some [\<lparr>currentMessage = greeting, charIndex = 1\<rparr>] \<and>
   observe call (runFrom simulatedContinuation liveCall interrupted) = Some archivedCall \<and>
   observe pending (runFrom simulatedContinuation liveCall interrupted) = Some None \<and>
   observe isTyping (runFrom simulatedContinuation liveCall interrupted) = Some True \<and>
   observe displayedMessages (runFrom simulatedContinuation liveCall interrupted) =
     Some (transcript archivedCall) \<and>
   observe currentTypingText (runFrom simulatedContinuation liveCall
     (interrupted @ [Fired (Tick 0 0 [])])) = Some (js ''Hi'') \<and>
   observe displayedMessages (runFrom simulatedContinuation liveCall
     (interrupted @ [Fired (Tick 0 0 []), Fired (Tick 0 9 (js ''t''))])) =
     Some (transcript archivedCall @ [newMessage greeting 9 (js ''t'')]) \<and>
   observe messageIndex (runFrom simulatedContinuation liveCall
     (interrupted @ [Fired (Tick 0 0 []), Fired (Tick 0 9 (js ''t''))])) = Some 1 \<and>
   observe (\<lambda>s. typeTimers (unmount s)) (runFrom simulatedContinuation liveCall
     (map Fired (FireTimeout # ticks [(0, [])]))) =
     Some [\<lparr>currentMessage = greeting, charIndex = 1\<rparr>]"
proof -
  let ?sc = simulatedContinuation
  let ?p = "playing ?sc liveCall 0 (butlast (transcript liveCall)) ai"
  let ?cs = "[(0::int, []::jsstring)]"
  let ?s1 = "?p\<lparr>pending := None, typingRole := role greeting, isTyping := True,
            currentTypingText := take (length ?cs) (content greeting),
            typeTimers := [\<lparr>currentMessage = greeting, charIndex = length ?cs\<rparr>]\<rparr>"
  let ?r = "?s1\<lparr>call := archivedCall, displayedMessages := transcript archivedCall,
            isLiveDemo := False, pending := None, liveDeps := Some (False, 0, 2)\<rparr>"
  let ?t1 = "?r\<lparr>currentTypingText := take (Suc 1) (content greeting),
            typeTimers := [\<lparr>currentMessage = greeting, charIndex = Suc 1\<rparr>]\<rparr>"
  let ?t2 = "?t1\<lparr>typeTimers := [], isTyping := False, currentTypingText := [],
            displayedMessages := displayedMessages ?t1 @ [newMessage greeting 9 (js ''t'')],
            messageIndex := Suc (messageIndex ?t1)\<rparr>"
  have a: "status liveCall = in_progress" by (simp add: liveCall_def)
  have b: "pending ?p = Some (Pause greeting)"
    by (simp add: playing_def allMessages_eq liveCall_def)
  have c: "typeTimers ?p = []" by (simp add: playing_def)
  have len: "length ?cs \<le> length (content greeting)" by (simp add: greeting_def js_def)
  have g: "length (content greeting) = 2" by (simp add: greeting_def js_def)
  have st: "status archivedCall = completed" "transcriptRef archivedCall = 2"
      "transcriptRef liveCall = 1"
    by (simp_all add: archivedCall_def liveCall_def)
  have r1: "run ?sc (map Fired (FireTimeout # ticks ?cs)) ?p = Inr ?s1"
    by (rule typing_run [OF settled_playing b c len])
  have r2: "rebind ?sc archivedCall ?s1 = Inr ?r"
    by (simp add: rebind_Inr flushLive_Inr initEffect_def settled_def deps_def scheduled_def
        playing_def st)
  have sr: "settled ?r" by (simp add: settled_def deps_def st playing_def)
  have tr: "typeTimers ?r = [\<lparr>currentMessage = greeting, charIndex = 1\<rparr>]" by simp
  have r3: "fire ?sc (Tick 0 0 []) ?r = Inr ?t1"
    by (rule fire_reveal [OF sr tr]) (simp add: g)
  have tt: "typeTimers ?t1 = [\<lparr>currentMessage = greeting, charIndex = Suc 1\<rparr>]" by simp
  have r4: "fire ?sc (Tick 0 9 (js ''t'')) ?t1 = flushLive ?sc ?t2"
    by (rule fire_commit [OF tt]) (simp add: g)
  obtain t3 where r5: "flushLive ?sc ?t2 = Inr t3" using flushLive_Inr by blast
  have f5: "displayedMessages t3 = displayedMessages ?t2 \<and> messageIndex t3 = messageIndex ?t2"
    using flushLive_displayed [OF r5] by simp
  have R': "run ?sc interrupted ?p = Inr ?r"
    unfolding interrupted_def by (rule run_snoc [OF r1]) (simp only: step.simps r2)
  have T1': "run ?sc (interrupted @ [Fired (Tick 0 0 [])]) ?p = Inr ?t1"
    by (rule run_snoc [OF R']) (simp only: step.simps r3)
  have T2': "run ?sc ((interrupted @ [Fired (Tick 0 0 [])]) @ [Fired (Tick 0 9 (js ''t''))]) ?p =
      Inr t3"
    by (rule run_snoc [OF T1']) (simp only: step.simps r4 r5)
  have R: "runFrom ?sc liveCall interrupted = Inr ?r"
    unfolding runFrom_live [OF a] by (rule R')
  have T1: "runFrom ?sc liveCall (interrupted @ [Fired (Tick 0 0 [])]) = Inr ?t1"
    unfolding runFrom_live [OF a] by (rule T1')
  have T2: "runFrom ?sc liveCall
      (interrupted @ [Fired (Tick 0 0 []), Fired (Tick 0 9 (js ''t''))]) = Inr t3"
    unfolding runFrom_live [OF a] using T2' by simp
  have U: "runFrom ?sc liveCall (map Fired (FireTimeout # ticks ?cs)) = Inr ?s1"
    unfolding runFrom_live [OF a] by (rule r1)
  have o1: "observe typeTimers (Inr ?r) = Some [\<lparr>currentMessage = greeting, charIndex = 1\<rparr>]"
    by (simp add: observe_Inr)
  have o2: "observe call (Inr ?r) = Some archivedCall" by (simp add: observe_Inr)
  have o3: "observe pending (Inr ?r) = Some None" by (simp add: observe_Inr)
  have o4: "observe isTyping (Inr ?r) = Some True" by (simp add: observe_Inr)
  have o5: "observe displayedMessages (Inr ?r) = Some (transcript archivedCall)"
    by (simp add: observe_Inr)
  have o6: "observe currentTypingText (Inr ?t1) = Some (js ''Hi'')"
    by (simp add: observe_Inr greeting_def js_def)
  have o7: "observe displayedMessages (Inr t3) =
      Some (transcript archivedCall @ [newMessage greeting 9 (js ''t'')])"
    using f5 by (simp add: observe_Inr)
  have o8: "observe messageIndex (Inr t3) = Some 1"
    using f5 by (simp add: observe_Inr playing_def)
  have o9: "observe (\<lambda>s. typeTimers (unmount s)) (Inr ?s1) =
      Some [\<lparr>currentMessage = greeting, charIndex = 1\<rparr>]"
    by (simp add: observe_Inr unmount_def)
  show ?thesis
    unfolding R T1 T2 U using o1 o2 o3 o4 o5 o6 o7 o8 o9 by blast
qed

end
